theory Spec2Isabelle
  imports Complex_Main "HOL-Library.Multiset" "HOL-Library.Log_Nat"
begin

section \<open>JavaScript values used by the logging code\<close>

text \<open>
  An \<open>Error\<close> object as the logging classes read it: \<open>ex.message\<close> (a string after
  \<open>super(ex.message)\<close>), \<open>ex.stack\<close> (possibly undefined), whether
  \<open>ex instanceof SkipTestCase\<close> holds, and the optional own property \<open>extra\<close>
  (\<open>'extra' in ex\<close>).
\<close>

record Error =
  ex_message :: string
  ex_stack :: "string option"
  instanceof_SkipTestCase :: bool
  ex_extra :: "string option"

text \<open>
  \<open>assert(condition, msg)\<close> of \<open>util.js\<close> throws an error carrying \<open>msg\<close> when the
  condition is false. A throw is the left injection of a sum.
\<close>

datatype thrown = AssertionFailed string

definition assert :: "bool \<Rightarrow> string \<Rightarrow> thrown + unit" where
  "assert condition msg = (if condition then Inr () else Inl (AssertionFailed msg))"

section \<open>\<open>out/common/framework/logging/log_message.js\<close>\<close>

text \<open>
  The \<open>LogMessageWithStack\<close> the recorder constructs:
  \<open>constructor(name, ex, includeStack = true)\<close> keeps \<open>ex.message\<close>, sets \<open>name\<close> and
  keeps \<open>ex.stack\<close> only when \<open>includeStack\<close> holds.
\<close>

record LogMessageWithStack =
  name :: string
  message :: string
  stack :: "string option"

definition new_LogMessageWithStack :: "string \<Rightarrow> Error \<Rightarrow> bool \<Rightarrow> LogMessageWithStack" where
  "new_LogMessageWithStack nm ex includeStack =
     \<lparr>name = nm, message = ex_message ex,
      stack = (if includeStack then ex_stack ex else None)\<rparr>"

section \<open>\<open>out-wpt/common/framework/logging/test_case_recorder.js\<close>\<close>

text \<open>The numeric enum \<open>PassState\<close> with its forward and reverse mappings.\<close>

datatype PassState = Pass | Skip | Warn | Fail

fun PassState_num :: "PassState \<Rightarrow> nat" where
  "PassState_num Pass = 0"
| "PassState_num Skip = 1"
| "PassState_num Warn = 2"
| "PassState_num Fail = 3"

definition PassState_name :: "nat \<Rightarrow> string option" where
  "PassState_name n =
     (if n = 0 then Some ''pass''
      else if n = 1 then Some ''skip''
      else if n = 2 then Some ''warn''
      else if n = 3 then Some ''fail''
      else None)"

subsection \<open>JavaScript numbers\<close>

text \<open>
  A JavaScript number is a binary64 double. A finite double is given by its real value
  (the two zeros are not told apart); \<open>NaN\<close> does not arise from the arithmetic of the
  recorder, whose operands are finite clock readings and the constant \<open>1000\<close>.
\<close>

datatype double = Finite real | Infinity | NegInfinity

text \<open>The integer nearest to \<open>y\<close>, the even one of the two when \<open>y\<close> lies halfway.\<close>

definition round_half_even :: "real \<Rightarrow> int" where
  "round_half_even y =
     (let f = \<lfloor>y\<rfloor>; r = y - of_int f
      in if r < 1 / 2 then f
         else if 1 / 2 < r then f + 1
         else if even f then f else f + 1)"

text \<open>
  The binary exponent of a real \<open>x \<noteq> 0\<close>: the integer \<open>e\<close> with
  \<open>2 ^ e \<le> |x| < 2 ^ (e + 1)\<close>, counted from the bits of the integer part of \<open>|x|\<close>, or
  of \<open>1 / |x|\<close> when \<open>|x| < 1\<close>.
\<close>

definition exponent :: "real \<Rightarrow> int" where
  "exponent x =
     (if 1 \<le> \<bar>x\<bar> then bitlen \<lfloor>\<bar>x\<bar>\<rfloor> - 1
      else - bitlen (\<lceil>1 / \<bar>x\<bar>\<rceil> - 1))"

text \<open>
  Rounding of an exact result to binary64, to nearest with ties to even: 53 significant
  bits, the least exponent \<open>-1022\<close> (below it the spacing stays \<open>2 ^ -1074\<close>), and
  an infinity when the rounded magnitude reaches \<open>2 ^ 1024\<close>.
\<close>

definition round64 :: "real \<Rightarrow> double" where
  "round64 x =
     (if x = 0 then Finite 0
      else
        (let e = max (exponent x) (- 1022);
             q = 2 powi (e - 52);
             y = of_int (round_half_even (x / q)) * q
         in if 2 powi 1024 \<le> \<bar>y\<bar> then (if 0 < x then Infinity else NegInfinity)
            else Finite y))"

text \<open>
  The arithmetic of \<open>finish()\<close>: \<open>a - b\<close> for finite \<open>a\<close> and \<open>b\<close>, \<open>x * 1000\<close>,
  \<open>Math.ceil(x)\<close> (exact: the ceiling of a double is a double) and \<open>x / 1000\<close>. Each
  operation rounds its exact result; an infinity stays what it is.
\<close>

definition js_minus :: "real \<Rightarrow> real \<Rightarrow> double" where
  "js_minus a b = round64 (a - b)"

definition js_times_1000 :: "double \<Rightarrow> double" where
  "js_times_1000 x =
     (case x of
        Finite a \<Rightarrow> round64 (a * 1000)
      | Infinity \<Rightarrow> Infinity
      | NegInfinity \<Rightarrow> NegInfinity)"

definition Math_ceil :: "double \<Rightarrow> double" where
  "Math_ceil x =
     (case x of
        Finite a \<Rightarrow> Finite (of_int \<lceil>a\<rceil>)
      | Infinity \<Rightarrow> Infinity
      | NegInfinity \<Rightarrow> NegInfinity)"

definition js_divide_1000 :: "double \<Rightarrow> double" where
  "js_divide_1000 x =
     (case x of
        Finite a \<Rightarrow> round64 (a / 1000)
      | Infinity \<Rightarrow> Infinity
      | NegInfinity \<Rightarrow> NegInfinity)"

subsection \<open>The recorder and the store\<close>

text \<open>
  Arrays are objects: \<open>this.result.logs = this.logs\<close> stores a reference, and a later
  \<open>push\<close> is seen through every reference. So arrays live in a store, by address, and a
  field of the result object holds a finite number, an infinity, a string, a reference
  to an array, or undefined. A clock reading (milliseconds from \<open>now()\<close>) is a finite
  double, given by its real value.
\<close>

type_synonym addr = nat

datatype jsval =
  JUndefined | JNumber real | JInfinity | JNegInfinity | JString string | JArrayRef addr

text \<open>A number as a value of a field.\<close>

definition number_value :: "double \<Rightarrow> jsval" where
  "number_value x =
     (case x of
        Finite a \<Rightarrow> JNumber a
      | Infinity \<Rightarrow> JInfinity
      | NegInfinity \<Rightarrow> JNegInfinity)"

text \<open>
  A recorder with the part of the store it works on: \<open>arrays\<close> is the store of array
  objects, \<open>result\<close> the fields of the \<open>LiveTestCaseResult\<close> object that \<open>this.result\<close>
  refers to (owned by the logger), and \<open>logs\<close> the address of the array \<open>this.logs\<close>.
\<close>

record TestCaseRecorder =
  arrays :: "addr \<Rightarrow> LogMessageWithStack list"
  result :: "string \<rightharpoonup> jsval"
  state :: nat
  startTime :: real
  logs :: addr
  debugging :: bool

text \<open>
  The constructor. \<open>a\<close> is the address the allocator gives to the array literal
  \<open>[]\<close>; \<open>store\<close> holds the arrays that exist already.
\<close>

definition new_TestCaseRecorder ::
  "(addr \<Rightarrow> LogMessageWithStack list) \<Rightarrow> addr \<Rightarrow> (string \<rightharpoonup> jsval) \<Rightarrow> bool \<Rightarrow> TestCaseRecorder" where
  "new_TestCaseRecorder store a res dbg =
     \<lparr>arrays = store(a := []), result = res, state = PassState_num Pass,
      startTime = - 1, logs = a, debugging = dbg\<rparr>"

text \<open>\<open>start()\<close> and \<open>finish()\<close>; the argument \<open>now\<close> is what \<open>now()\<close> returns at the call.\<close>

definition start :: "real \<Rightarrow> TestCaseRecorder \<Rightarrow> thrown + TestCaseRecorder" where
  "start now r =
     (case assert (startTime r < 0) ''TestCaseRecorder cannot be reused'' of
        Inl e \<Rightarrow> Inl e
      | Inr _ \<Rightarrow> Inr (r\<lparr>startTime := now\<rparr>))"

definition finish :: "real \<Rightarrow> TestCaseRecorder \<Rightarrow> thrown + TestCaseRecorder" where
  "finish now r =
     (case assert (startTime r \<ge> 0) ''finish() before start()'' of
        Inl e \<Rightarrow> Inl e
      | Inr _ \<Rightarrow>
          (let timeMilliseconds = js_minus now (startTime r);
               r1 = r\<lparr>result := (result r)(''timems'' \<mapsto>
                        number_value (js_divide_1000 (Math_ceil
                          (js_times_1000 timeMilliseconds))))\<rparr>;
               r2 = r1\<lparr>result := (result r1)(''status'' \<mapsto>
                        (case PassState_name (state r1) of
                           Some s \<Rightarrow> JString s
                         | None \<Rightarrow> JUndefined))\<rparr>
           in Inr (r2\<lparr>result := (result r2)(''logs'' \<mapsto> JArrayRef (logs r2))\<rparr>)))"

text \<open>\<open>Object.assign(this.result, injectedResult)\<close>: the fields of the argument win.\<close>

definition injectResult :: "(string \<rightharpoonup> jsval) \<Rightarrow> TestCaseRecorder \<Rightarrow> TestCaseRecorder" where
  "injectResult injectedResult r = r\<lparr>result := result r ++ injectedResult\<rparr>"

definition setState :: "nat \<Rightarrow> TestCaseRecorder \<Rightarrow> TestCaseRecorder" where
  "setState s r = r\<lparr>state := max (state r) s\<rparr>"

text \<open>\<open>this.logs.push(x)\<close>: the array at the address \<open>this.logs\<close> grows at its end.\<close>

definition logs_push :: "LogMessageWithStack \<Rightarrow> TestCaseRecorder \<Rightarrow> TestCaseRecorder" where
  "logs_push x r = r\<lparr>arrays := (arrays r)(logs r := arrays r (logs r) @ [x])\<rparr>"

definition debug :: "Error \<Rightarrow> TestCaseRecorder \<Rightarrow> TestCaseRecorder" where
  "debug ex r =
     (if \<not> debugging r then r
      else logs_push (new_LogMessageWithStack ''DEBUG'' ex False) r)"

definition warn :: "Error \<Rightarrow> TestCaseRecorder \<Rightarrow> TestCaseRecorder" where
  "warn ex r =
     logs_push (new_LogMessageWithStack ''WARN'' ex True) (setState (PassState_num Warn) r)"

definition fail :: "Error \<Rightarrow> TestCaseRecorder \<Rightarrow> TestCaseRecorder" where
  "fail ex r =
     logs_push (new_LogMessageWithStack ''FAIL'' ex True) (setState (PassState_num Fail) r)"

definition skipped :: "Error \<Rightarrow> TestCaseRecorder \<Rightarrow> TestCaseRecorder" where
  "skipped ex r =
     logs_push (new_LogMessageWithStack ''SKIP'' ex True) (setState (PassState_num Skip) r)"

definition threw :: "Error \<Rightarrow> TestCaseRecorder \<Rightarrow> TestCaseRecorder" where
  "threw ex r =
     (if instanceof_SkipTestCase ex then skipped ex r
      else logs_push (new_LogMessageWithStack ''EXCEPTION'' ex True)
             (setState (PassState_num Fail) r))"

subsection \<open>Sequences of logging calls\<close>

text \<open>
  The logging calls a case body makes on its recorder, in the order they are made.
\<close>

datatype call = Debug Error | Warning Error | Failure Error | Skipped Error | Threw Error

fun apply_call :: "call \<Rightarrow> TestCaseRecorder \<Rightarrow> TestCaseRecorder" where
  "apply_call (Debug ex) r = debug ex r"
| "apply_call (Warning ex) r = warn ex r"
| "apply_call (Failure ex) r = fail ex r"
| "apply_call (Skipped ex) r = skipped ex r"
| "apply_call (Threw ex) r = threw ex r"

definition apply_calls :: "call list \<Rightarrow> TestCaseRecorder \<Rightarrow> TestCaseRecorder" where
  "apply_calls cs r = fold apply_call cs r"

text \<open>
  In the spec's words: the severity a call escalates the status to, as a number of
  \<open>PassState\<close>; \<open>debug\<close> asks for none.
\<close>

fun severity :: "call \<Rightarrow> nat" where
  "severity (Debug ex) = PassState_num Pass"
| "severity (Warning ex) = PassState_num Warn"
| "severity (Failure ex) = PassState_num Fail"
| "severity (Skipped ex) = PassState_num Skip"
| "severity (Threw ex) =
     (if instanceof_SkipTestCase ex then PassState_num Skip else PassState_num Fail)"

text \<open>
  In the spec's words: the greatest severity among the calls; \<open>pass\<close> when there is
  none.
\<close>

definition max_severity :: "call list \<Rightarrow> nat" where
  "max_severity cs = foldr max (map severity cs) (PassState_num Pass)"

text \<open>
  In the spec's words: a call that fails the case (\<open>fail\<close>, or \<open>threw\<close> with anything
  but the skip signal), one that warns, and one that skips it (\<open>skipped\<close>, or \<open>threw\<close>
  with the skip signal).
\<close>

fun fails :: "call \<Rightarrow> bool" where
  "fails (Failure ex) = True"
| "fails (Threw ex) = (\<not> instanceof_SkipTestCase ex)"
| "fails _ = False"

fun warns :: "call \<Rightarrow> bool" where
  "warns (Warning ex) = True"
| "warns _ = False"

fun skips :: "call \<Rightarrow> bool" where
  "skips (Skipped ex) = True"
| "skips (Threw ex) = instanceof_SkipTestCase ex"
| "skips _ = False"

text \<open>
  The life of one recorder as the runner drives it: \<open>start()\<close> at time \<open>t0\<close>, the
  logging calls of the case body, \<open>finish()\<close> at time \<open>t1\<close>.
\<close>

definition run_case ::
  "real \<Rightarrow> call list \<Rightarrow> real \<Rightarrow> TestCaseRecorder \<Rightarrow> thrown + TestCaseRecorder" where
  "run_case t0 cs t1 r =
     (case start t0 r of
        Inl e \<Rightarrow> Inl e
      | Inr r1 \<Rightarrow> finish t1 (apply_calls cs r1))"

text \<open>
  Any use of a recorder: a sequence of method calls. A call that throws leaves the
  recorder as it was (each \<open>assert\<close> comes before the first assignment of its method),
  and the instance can be called again.
\<close>

datatype method_call =
    Start real
  | Finish real
  | Log call
  | InjectResult "string \<rightharpoonup> jsval"

fun step :: "method_call \<Rightarrow> TestCaseRecorder \<Rightarrow> thrown + TestCaseRecorder" where
  "step (Start now) r = start now r"
| "step (Finish now) r = finish now r"
| "step (Log c) r = Inr (apply_call c r)"
| "step (InjectResult p) r = Inr (injectResult p r)"

definition after :: "method_call \<Rightarrow> TestCaseRecorder \<Rightarrow> TestCaseRecorder" where
  "after m r = (case step m r of Inl e \<Rightarrow> r | Inr r' \<Rightarrow> r')"

definition history :: "method_call list \<Rightarrow> TestCaseRecorder \<Rightarrow> TestCaseRecorder" where
  "history ms r = fold after ms r"

fun is_Start :: "method_call \<Rightarrow> bool" where
  "is_Start (Start now) = True"
| "is_Start _ = False"

text \<open>The clock \<open>now()\<close> never reads below zero.\<close>

fun clock_ok :: "method_call \<Rightarrow> bool" where
  "clock_ok (Start now) = (0 \<le> now)"
| "clock_ok (Finish now) = (0 \<le> now)"
| "clock_ok _ = True"

text \<open>
  In the spec's words: the log entry a call produces, with the severity tag of the call,
  the message and the stack of its argument. \<open>debug\<close> produces one (without stack) only
  when debugging is enabled; \<open>threw\<close> produces a \<open>SKIP\<close> entry for the skip signal and
  an \<open>EXCEPTION\<close> entry otherwise.
\<close>

fun entries_of :: "bool \<Rightarrow> call \<Rightarrow> LogMessageWithStack list" where
  "entries_of dbg (Debug ex) =
     (if dbg then [\<lparr>name = ''DEBUG'', message = ex_message ex, stack = None\<rparr>] else [])"
| "entries_of dbg (Warning ex) =
     [\<lparr>name = ''WARN'', message = ex_message ex, stack = ex_stack ex\<rparr>]"
| "entries_of dbg (Failure ex) =
     [\<lparr>name = ''FAIL'', message = ex_message ex, stack = ex_stack ex\<rparr>]"
| "entries_of dbg (Skipped ex) =
     [\<lparr>name = ''SKIP'', message = ex_message ex, stack = ex_stack ex\<rparr>]"
| "entries_of dbg (Threw ex) =
     [\<lparr>name = (if instanceof_SkipTestCase ex then ''SKIP'' else ''EXCEPTION''),
       message = ex_message ex, stack = ex_stack ex\<rparr>]"

fun is_Debug :: "call \<Rightarrow> bool" where
  "is_Debug (Debug ex) = True"
| "is_Debug _ = False"

text \<open>What a reader of \<open>result.logs\<close> sees: the array the field refers to.\<close>

definition result_logs :: "TestCaseRecorder \<Rightarrow> LogMessageWithStack list option" where
  "result_logs r =
     (case result r ''logs'' of
        Some (JArrayRef a) \<Rightarrow> Some (arrays r a)
      | _ \<Rightarrow> None)"

text \<open>An error object and a skip signal to run the definitions on.\<close>

definition an_error :: "string \<Rightarrow> Error" where
  "an_error m =
     \<lparr>ex_message = m, ex_stack = Some (''Error: '' @ m @ [CHR 0x0A] @ ''    at f (a.js:1:1)''),
      instanceof_SkipTestCase = False, ex_extra = None\<rparr>"

definition a_skip :: "string \<Rightarrow> Error" where
  "a_skip m = (an_error m)\<lparr>instanceof_SkipTestCase := True\<rparr>"

definition fresh_recorder :: "bool \<Rightarrow> TestCaseRecorder" where
  "fresh_recorder dbg = new_TestCaseRecorder (\<lambda>_. []) 0 Map.empty dbg"

section \<open>\<open>out/common/internal/logging/log_message.js\<close>\<close>

text \<open>
  The other \<open>LogMessageWithStack\<close> class. It extends \<open>Error\<close> too, so it has the fields
  \<open>name\<close>, \<open>message\<close> and \<open>stack\<close> of the class above, and adds \<open>extra\<close> and
  \<open>firstLineOnlyMessage\<close> (\<open>None\<close> is \<open>undefined\<close>).
\<close>

record LogMessageWithStack_internal = LogMessageWithStack +
  extra :: "string option"
  firstLineOnlyMessage :: "string option"

definition new_LogMessageWithStack_internal :: "string \<Rightarrow> Error \<Rightarrow> LogMessageWithStack_internal" where
  "new_LogMessageWithStack_internal nm ex =
     \<lparr>name = nm, message = ex_message ex, stack = ex_stack ex,
      extra = ex_extra ex, firstLineOnlyMessage = None\<rparr>"

text \<open>\<open>this.firstLineOnlyMessage ??= firstLineOnlyMessage\<close>, the argument a string.\<close>

definition setFirstLineOnly ::
  "string \<Rightarrow> LogMessageWithStack_internal \<Rightarrow> LogMessageWithStack_internal" where
  "setFirstLineOnly msg l =
     (case firstLineOnlyMessage l of
        None \<Rightarrow> l\<lparr>firstLineOnlyMessage := Some msg\<rparr>
      | Some _ \<Rightarrow> l)"

text \<open>
  \<open>s.split(sep)\<close> for a separator of one character: the pieces between the separators,
  never an empty array.
\<close>

fun split_str :: "char \<Rightarrow> string \<Rightarrow> string list" where
  "split_str sep [] = [[]]"
| "split_str sep (c # cs) =
     (if c = sep then [] # split_str sep cs
      else (case split_str sep cs of
              [] \<Rightarrow> [[c]]
            | x # xs \<Rightarrow> (c # x) # xs))"

text \<open>
  \<open>toJSON()\<close>. \<open>extractImportantStackTrace\<close> is imported from \<open>stack.js\<close> and is a
  parameter here; it receives the log message itself. A string is truthy when it is not
  empty, \<open>undefined\<close> is falsy.
\<close>

definition toJSON ::
  "(LogMessageWithStack_internal \<Rightarrow> string) \<Rightarrow> LogMessageWithStack_internal \<Rightarrow> string" where
  "toJSON extractImportantStackTrace l =
     (let m = name l in
      case firstLineOnlyMessage l of
        Some f \<Rightarrow>
          (let m1 = (if message l \<noteq> [] then m @ '': '' @ split_str (CHR 0x0A) (message l) ! 0
                     else m)
           in if f \<noteq> [] then m1 @ '' (elided: '' @ f @ '')'' else m1)
      | None \<Rightarrow>
          (let m1 = (if message l \<noteq> [] then m @ '': '' @ message l else m)
           in if stack l \<noteq> None \<and> stack l \<noteq> Some []
              then m1 @ [CHR 0x0A] @ extractImportantStackTrace l
              else m1))"

text \<open>A stand-in for \<open>extractImportantStackTrace\<close> to run \<open>toJSON\<close> with: the stack as it is.\<close>

definition whole_stack :: "LogMessageWithStack_internal \<Rightarrow> string" where
  "whole_stack l = (case stack l of None \<Rightarrow> [] | Some s \<Rightarrow> s)"

section \<open>The parameter space builder\<close>

text \<open>
  The \<open>.spec\<close> files declare their parameters through the builder (\<open>combine\<close>,
  \<open>expand\<close>, \<open>filter\<close>, \<open>unless\<close>, \<open>beginSubcases\<close>), but the file that defines the
  builder is not among the sources at hand. This section models it from section 4.1 of
  the specification.
\<close>

text \<open>
  Modelled from the spec: the values of parameters, which the missing builder takes
  from its callers: numbers, strings and booleans.
\<close>

datatype pvalue = PNum int | PStr string | PBool bool

text \<open>
  Modelled from the spec: the case record of the missing builder, a mapping from
  parameter names to values, kept in the order the axes were merged in.
\<close>

type_synonym case_record = "(string \<times> pvalue) list"

text \<open>
  Modelled from the spec: the configuration error with which the missing builder's
  expansion fails.
\<close>

datatype builder_error = ConfigurationError

text \<open>
  Modelled from the spec: the operations of a chain of the missing builder. A generator
  of \<open>expand\<close> sees the case built so far; a predicate of \<open>filter\<close> or \<open>unless\<close> that
  reads a key not yet declared is a configuration error.
\<close>

datatype builder_op =
    Combine string "pvalue list"
  | CombineWithParams "case_record list"
  | Expand string "case_record \<Rightarrow> pvalue list"
  | ExpandWithParams "case_record \<Rightarrow> case_record list"
  | Filter "case_record \<Rightarrow> builder_error + bool"
  | Unless "case_record \<Rightarrow> builder_error + bool"
  | BeginSubcases

text \<open>
  Modelled from the spec: how the missing builder merges an axis value into a case. A key once written is never
  overwritten: a key of \<open>b\<close> that \<open>a\<close> has already is a configuration error.
\<close>

definition mergeParams :: "case_record \<Rightarrow> case_record \<Rightarrow> builder_error + case_record" where
  "mergeParams a b =
     (if list_ex (\<lambda>k. k \<in> set (map fst a)) (map fst b) then Inl ConfigurationError
      else Inr (a @ b))"

text \<open>
  Modelled from the spec: one case of the missing builder multiplied by a sequence of
  partial records, in the order of the sequence.
\<close>

fun merge_each :: "case_record \<Rightarrow> case_record list \<Rightarrow> builder_error + case_record list" where
  "merge_each a [] = Inr []"
| "merge_each a (b # bs) =
     (case mergeParams a b of
        Inl e \<Rightarrow> Inl e
      | Inr c \<Rightarrow> (case merge_each a bs of Inl e \<Rightarrow> Inl e | Inr cs \<Rightarrow> Inr (c # cs)))"

text \<open>
  Modelled from the spec: the running sequence of cases of the missing builder
  multiplied by a sequence of partial records that may depend on the case (the cartesian
  product, cases outermost).
\<close>

fun multiply ::
  "(case_record \<Rightarrow> case_record list) \<Rightarrow> case_record list \<Rightarrow> builder_error + case_record list" where
  "multiply gen [] = Inr []"
| "multiply gen (c # cs) =
     (case merge_each c (gen c) of
        Inl e \<Rightarrow> Inl e
      | Inr xs \<Rightarrow> (case multiply gen cs of Inl e \<Rightarrow> Inl e | Inr ys \<Rightarrow> Inr (xs @ ys)))"

text \<open>
  Modelled from the spec: \<open>filter\<close> and \<open>unless\<close> of the missing builder. Of the running
  sequence of cases those are kept for which the predicate gives \<open>keep\<close>.
\<close>

fun keep_cases ::
  "bool \<Rightarrow> (case_record \<Rightarrow> builder_error + bool) \<Rightarrow> case_record list \<Rightarrow> builder_error + case_record list" where
  "keep_cases keep p [] = Inr []"
| "keep_cases keep p (c # cs) =
     (case p c of
        Inl e \<Rightarrow> Inl e
      | Inr b \<Rightarrow>
          (case keep_cases keep p cs of
             Inl e \<Rightarrow> Inl e
           | Inr ys \<Rightarrow> Inr (if b = keep then c # ys else ys)))"

text \<open>
  Modelled from the spec: whether some case of the running sequence of the missing
  builder has the key \<open>k\<close> already.
\<close>

definition key_in_cases :: "string \<Rightarrow> case_record list \<Rightarrow> bool" where
  "key_in_cases k cs = list_ex (\<lambda>c. k \<in> set (map fst c)) cs"

text \<open>
  Modelled from the spec: the transformation one operation of the missing builder
  applies to the running sequence of cases. The name of an axis must not appear in any
  case produced so far, whether or not the axis has a value to merge; the keys that a
  generator of \<open>expandWithParams\<close> contributes are checked when they are merged.
  \<open>BeginSubcases\<close> is a marker and transforms nothing.
\<close>

fun apply_op :: "builder_op \<Rightarrow> case_record list \<Rightarrow> builder_error + case_record list" where
  "apply_op (Combine k vs) cs =
     (if key_in_cases k cs then Inl ConfigurationError
      else multiply (\<lambda>_. map (\<lambda>v. [(k, v)]) vs) cs)"
| "apply_op (CombineWithParams ps) cs =
     (if list_ex (\<lambda>k. key_in_cases k cs) (concat (map (map fst) ps))
      then Inl ConfigurationError
      else multiply (\<lambda>_. ps) cs)"
| "apply_op (Expand k f) cs =
     (if key_in_cases k cs then Inl ConfigurationError
      else multiply (\<lambda>c. map (\<lambda>v. [(k, v)]) (f c)) cs)"
| "apply_op (ExpandWithParams f) cs = multiply f cs"
| "apply_op (Filter p) cs = keep_cases True p cs"
| "apply_op (Unless p) cs = keep_cases False p cs"
| "apply_op BeginSubcases cs = Inr cs"

text \<open>
  Modelled from the spec: the expansion algorithm of the missing builder, a fold of the
  operations from left to right over the running sequence of cases.
\<close>

fun expand_ops :: "builder_op list \<Rightarrow> case_record list \<Rightarrow> builder_error + case_record list" where
  "expand_ops [] cs = Inr cs"
| "expand_ops (b # bs) cs =
     (case apply_op b cs of Inl e \<Rightarrow> Inl e | Inr cs' \<Rightarrow> expand_ops bs cs')"

text \<open>
  Modelled from the spec: whether an operation of the missing builder is the
  \<open>beginSubcases\<close> marker.
\<close>

fun is_BeginSubcases :: "builder_op \<Rightarrow> bool" where
  "is_BeginSubcases BeginSubcases = True"
| "is_BeginSubcases _ = False"

text \<open>
  Modelled from the spec: the top-level operations of a chain of the missing builder,
  those declared before the \<open>beginSubcases\<close> marker.
\<close>

definition top_ops :: "builder_op list \<Rightarrow> builder_op list" where
  "top_ops ops = takeWhile (\<lambda>b. \<not> is_BeginSubcases b) ops"

text \<open>
  Modelled from the spec: the subcase operations of a chain of the missing builder,
  those declared after the \<open>beginSubcases\<close> marker.
\<close>

definition sub_ops :: "builder_op list \<Rightarrow> builder_op list" where
  "sub_ops ops = drop 1 (dropWhile (\<lambda>b. \<not> is_BeginSubcases b) ops)"

text \<open>
  Modelled from the spec: the nested run loop over the missing builder's cases. Each
  top-level case derives its own
  subcase sequence from the subcase operations, and every subcase is executed once.
\<close>

fun run_subcases :: "builder_op list \<Rightarrow> case_record list \<Rightarrow> builder_error + case_record list" where
  "run_subcases sub [] = Inr []"
| "run_subcases sub (c # cs) =
     (case expand_ops sub [c] of
        Inl e \<Rightarrow> Inl e
      | Inr xs \<Rightarrow> (case run_subcases sub cs of Inl e \<Rightarrow> Inl e | Inr ys \<Rightarrow> Inr (xs @ ys)))"

text \<open>
  Modelled from the spec: the parameter names an operation of the missing builder
  declares by itself: the name of an axis, or the keys of the partial records of
  \<open>combineWithParams\<close> (each once).
\<close>

fun declared_keys :: "builder_op \<Rightarrow> string list" where
  "declared_keys (Combine k vs) = [k]"
| "declared_keys (CombineWithParams ps) = remdups (concat (map (map fst) ps))"
| "declared_keys (Expand k f) = [k]"
| "declared_keys _ = []"

text \<open>
  Modelled from the spec: the cases a chain of the missing builder executes, in order.
  A parameter name declared twice anywhere in the chain is a configuration error, and so
  is a second \<open>beginSubcases\<close>. The top-level cases are the expansion of the top-level
  operations over the one empty case.
\<close>

definition executed_cases :: "builder_op list \<Rightarrow> builder_error + case_record list" where
  "executed_cases ops =
     (if \<not> distinct (concat (map declared_keys ops)) then Inl ConfigurationError
      else if list_ex is_BeginSubcases (sub_ops ops) then Inl ConfigurationError
      else (case expand_ops (top_ops ops) [[]] of
              Inl e \<Rightarrow> Inl e
            | Inr tops \<Rightarrow> run_subcases (sub_ops ops) tops))"

text \<open>
  Modelled from the spec: the chain
  \<open>combine(k1, vs1). ... .beginSubcases().combine(l1, ws1). ...\<close> of the missing builder,
  for given top-level axes and subcase axes.
\<close>

definition combine_chain ::
  "(string \<times> pvalue list) list \<Rightarrow> (string \<times> pvalue list) list \<Rightarrow> builder_op list" where
  "combine_chain top_axes sub_axes =
     map (\<lambda>(k, vs). Combine k vs) top_axes @ [BeginSubcases]
       @ map (\<lambda>(k, vs). Combine k vs) sub_axes"

text \<open>
  In the spec's words: every combination of the values of the axes, one value for each
  axis, in the order of declaration (the last axis varying fastest).
\<close>

definition all_combinations :: "(string \<times> pvalue list) list \<Rightarrow> case_record list" where
  "all_combinations axes = map (zip (map fst axes)) (product_lists (map snd axes))"

section \<open>Rounding to binary64\<close>

lemma exponent_eqI:
  assumes "2 powi e \<le> \<bar>x\<bar>" and "\<bar>x\<bar> < 2 powi (e + 1)"
  shows "exponent x = e"
proof (cases "1 \<le> \<bar>x\<bar>")
  case True
  have e0: "0 \<le> e"
  proof (rule ccontr)
    assume "\<not> 0 \<le> e"
    then have "e + 1 \<le> 0" by simp
    then have "(2::real) powi (e + 1) \<le> 1"
      by (auto simp: power_int_def power_le_one)
    with assms(2) True show False by simp
  qed
  let ?n = "\<lfloor>\<bar>x\<bar>\<rfloor>"
  have lo: "2 ^ nat e \<le> ?n"
    using assms(1) e0 by (simp add: power_int_def le_floor_iff)
  have hi: "?n < 2 ^ nat (e + 1)"
    using assms(2) e0 by (simp add: power_int_def floor_less_iff)
  have "bitlen ?n \<le> e + 1"
    using hi e0 by (simp add: bitlen_le_iff_power)
  moreover have "e + 1 \<le> bitlen ?n"
    using lo e0 by (simp add: bitlen_ge_iff_power nat_add_distrib)
  ultimately show ?thesis
    using True by (simp add: exponent_def)
next
  case False
  then have x1: "\<bar>x\<bar> < 1" by simp
  have xpos: "0 < \<bar>x\<bar>"
    using assms(1) by (smt (verit) zero_less_power_int)
  have e0: "e < 0"
  proof (rule ccontr)
    assume "\<not> e < 0"
    then have "(1::real) \<le> 2 powi e"
      by (simp add: one_le_power_int)
    with assms(1) x1 show False by simp
  qed
  define k where "k = nat (- e)"
  have k: "e = - int k" "1 \<le> k"
    using e0 by (simp_all add: k_def)
  let ?m = "\<lceil>1 / \<bar>x\<bar>\<rceil> - 1"
  have pe: "(2::real) powi e = 1 / 2 ^ k"
    using k by (simp add: power_int_def field_simps)
  have pe1: "(2::real) powi (e + 1) = 1 / 2 ^ (k - 1)"
    using k by (simp add: power_int_def field_simps nat_diff_distrib')
  have "1 / \<bar>x\<bar> \<le> 2 ^ k"
    using assms(1) xpos unfolding pe by (simp add: field_simps)
  then have "\<lceil>1 / \<bar>x\<bar>\<rceil> \<le> 2 ^ k"
    by (simp add: ceiling_le_iff)
  then have hi: "?m < 2 ^ k" by simp
  have "2 ^ (k - 1) < 1 / \<bar>x\<bar>"
    using assms(2) xpos unfolding pe1 by (simp add: field_simps)
  then have "2 ^ (k - 1) < \<lceil>1 / \<bar>x\<bar>\<rceil>"
    by (simp add: less_ceiling_iff)
  then have lo: "2 ^ (k - 1) \<le> ?m" by simp
  have "bitlen ?m \<le> int k"
    using hi by (simp add: bitlen_le_iff_power)
  moreover have "int k \<le> bitlen ?m"
    using lo k by (simp add: bitlen_ge_iff_power)
  ultimately show ?thesis
    using False k by (simp add: exponent_def)
qed

lemma round_half_even_nonneg: "0 \<le> y \<Longrightarrow> 0 \<le> round_half_even y"
  by (auto simp: round_half_even_def Let_def)

lemma round_half_even_near: "\<bar>of_int (round_half_even y) - y\<bar> \<le> 1 / 2"
  unfolding round_half_even_def Let_def by (auto; linarith)

lemma round64_at:
  assumes "2 powi e \<le> \<bar>x\<bar>" and "\<bar>x\<bar> < 2 powi (e + 1)"
  shows "round64 x =
     (let q = 2 powi (max e (- 1022) - 52);
          y = of_int (round_half_even (x / q)) * q
      in if 2 powi 1024 \<le> \<bar>y\<bar> then (if 0 < x then Infinity else NegInfinity)
         else Finite y)"
proof -
  have "0 < \<bar>x\<bar>"
    using assms(1) by (smt (verit) zero_less_power_int)
  then have "x \<noteq> 0" by simp
  then show ?thesis
    by (simp add: round64_def exponent_eqI [OF assms])
qed

lemma round64_nonneg:
  assumes "0 \<le> x"
  shows "round64 x = Infinity \<or> (\<exists>y. round64 x = Finite y \<and> 0 \<le> y)"
proof (cases "x = 0")
  case True
  then show ?thesis by (simp add: round64_def)
next
  case False
  let ?q = "(2::real) powi (max (exponent x) (- 1022) - 52)"
  have q: "0 < ?q" by simp
  have "0 \<le> x / ?q" using assms q by simp
  then have "0 \<le> round_half_even (x / ?q)" by (rule round_half_even_nonneg)
  then have "0 \<le> real_of_int (round_half_even (x / ?q)) * ?q"
    using q by simp
  then show ?thesis
    using False assms by (auto simp: round64_def Let_def)
qed

lemma exponent_bounds:
  assumes "x \<noteq> 0"
  shows "2 powi (exponent x) \<le> \<bar>x\<bar> \<and> \<bar>x\<bar> < 2 powi (exponent x + 1)"
proof -
  define e where "e = \<lfloor>log 2 \<bar>x\<bar>\<rfloor>"
  have pos: "0 < \<bar>x\<bar>" using assms by simp
  have p1: "2 powr (real_of_int e) = 2 powi e"
    by (rule powr_real_of_int') simp_all
  have p2: "2 powr (real_of_int (e + 1)) = 2 powi (e + 1)"
    by (rule powr_real_of_int') simp_all
  have "real_of_int e \<le> log 2 \<bar>x\<bar>"
    unfolding e_def by (rule of_int_floor_le)
  then have lo: "2 powi e \<le> \<bar>x\<bar>"
    using pos by (simp add: le_log_iff p1)
  have "log 2 \<bar>x\<bar> < real_of_int (e + 1)"
    unfolding e_def by linarith
  then have "\<bar>x\<bar> < 2 powr (real_of_int (e + 1))"
    using pos by (subst (asm) log_less_iff) simp_all
  then have hi: "\<bar>x\<bar> < 2 powi (e + 1)"
    unfolding p2 .
  from lo hi have "2 powi e \<le> \<bar>x\<bar>" "\<bar>x\<bar> < 2 powi (e + 1)" .
  then show ?thesis
    using exponent_eqI [of e x] by simp
qed

lemma abs_scaled_diff:
  fixes q :: real
  assumes "0 < q"
  shows "\<bar>n * q - v\<bar> = \<bar>n - v / q\<bar> * q"
proof -
  have "n * q - v = (n - v / q) * q"
    using assms by (simp add: field_simps)
  then have "\<bar>n * q - v\<bar> = \<bar>n - v / q\<bar> * \<bar>q\<bar>"
    by (simp only: abs_mult)
  then show ?thesis
    using assms by simp
qed

lemma round64_normal:
  assumes "2 powi (- 1022) \<le> v" and "v \<le> 2 powi 1023"
  shows "\<exists>y. round64 v = Finite y
           \<and> v * (9007199254740991 / 9007199254740992) \<le> y
           \<and> y \<le> v * (9007199254740993 / 9007199254740992)"
proof -
  have v: "0 < v"
    using assms(1) by (smt (verit) zero_less_power_int)
  then have v0: "v \<noteq> 0" by simp
  let ?e = "exponent v"
  have b: "2 powi ?e \<le> v"
    using exponent_bounds [OF v0] v by simp
  have "(2::real) powi (- 1022) < 2 powi (?e + 1)"
    using assms(1) exponent_bounds [OF v0] by simp
  then have "- 1022 < ?e + 1"
    using power_int_increasing [of "?e + 1" "- 1022" "2::real"] by (cases "- 1022 < ?e + 1") auto
  then have m: "max ?e (- 1022) = ?e" by simp
  let ?q = "(2::real) powi (?e - 52)"
  let ?y = "of_int (round_half_even (v / ?q)) * ?q"
  have q: "0 < ?q" by simp
  have "\<bar>?y - v\<bar> = \<bar>of_int (round_half_even (v / ?q)) - v / ?q\<bar> * ?q"
    by (rule abs_scaled_diff [OF q])
  also have "\<dots> \<le> (1 / 2) * ?q"
    using round_half_even_near [of "v / ?q"] q by (intro mult_right_mono) simp_all
  also have "(1 / 2) * ?q = 2 powi ?e * (1 / 9007199254740992)"
    by (simp add: power_int_diff field_simps)
  also have "\<dots> \<le> v * (1 / 9007199254740992)"
    using b by (intro mult_right_mono) simp_all
  finally have e: "\<bar>?y - v\<bar> \<le> v * (1 / 9007199254740992)" .
  have lo: "v * (9007199254740991 / 9007199254740992) \<le> ?y"
    using e by linarith
  have hi: "?y \<le> v * (9007199254740993 / 9007199254740992)"
    using e by linarith
  have "v * (9007199254740993 / 9007199254740992)
      \<le> 2 powi 1023 * (9007199254740993 / 9007199254740992)"
    using assms(2) by (intro mult_right_mono) simp_all
  also have "\<dots> < 2 powi 1023 * 2"
    by (intro mult_strict_left_mono) simp_all
  also have "\<dots> = 2 powi 1024"
    by simp
  finally have "?y < 2 powi 1024"
    using hi by linarith
  moreover have "0 \<le> ?y"
    using lo v by (smt (verit) mult_nonneg_nonneg divide_nonneg_nonneg)
  ultimately have "\<not> 2 powi 1024 \<le> \<bar>?y\<bar>"
    by linarith
  then have "round64 v = Finite ?y"
    using v0 by (simp add: round64_def Let_def m)
  then show ?thesis
    using lo hi by blast
qed

lemma least_normal_le: "(2::real) powi (- 1022) \<le> 1 / 1000"
proof -
  have "(2::real) powi (- 1022) \<le> 2 powi (- 10)"
    by (rule power_int_increasing) simp_all
  also have "\<dots> \<le> 1 / 1000"
    by (simp add: power_int_minus field_simps)
  finally show ?thesis .
qed

lemma timems_bounds:
  assumes D: "2 powi (- 1022) \<le> D" and D': "D \<le> 2 powi 1000"
  shows "\<exists>d m x. round64 D = Finite d \<and> round64 (d * 1000) = Finite m
           \<and> round64 (of_int \<lceil>m\<rceil> / 1000) = Finite x
           \<and> (1 - 2 powi (- 51)) * D \<le> x
           \<and> x \<le> (1 + 2 powi (- 51)) * (D + 1 / 1000)"
proof -
  define lo :: real where "lo = 9007199254740991 / 9007199254740992"
  define hi :: real where "hi = 9007199254740993 / 9007199254740992"
  have lo: "0 \<le> lo" "1 - 1 / 2251799813685248 \<le> lo * (lo * lo)" "1 \<le> lo * 1000"
    by (simp_all add: lo_def)
  have hi: "0 \<le> hi" "hi * (hi * hi) \<le> 1 + 1 / 2251799813685248"
    "hi \<le> 1 + 1 / 2251799813685248" "hi \<le> 2"
    by (simp_all add: hi_def)
  have Dpos: "0 < D"
    using D by (smt (verit) zero_less_power_int)
  have w: "(2::real) powi (- 51) = 1 / 2251799813685248"
    by (simp add: power_int_minus field_simps)
  have p: "(2::real) powi 1000 * 2048 = 2 powi 1011" "(2::real) powi 1011 * 4 = 2 powi 1013"
    "(2::real) powi 1013 \<le> 2 powi 1023" "(1::real) \<le> 2 powi 1000"
    by simp_all
  have "D \<le> 2 powi 1023"
    using D' p by linarith
  then obtain d where d: "round64 D = Finite d" "lo * D \<le> d" "d \<le> hi * D"
    using round64_normal [OF D] by (auto simp: lo_def hi_def mult.commute)
  have "1 * D \<le> lo * 1000 * D"
    using lo(3) Dpos by (intro mult_right_mono) simp_all
  also have "\<dots> = 1000 * (lo * D)" by simp
  also have "\<dots> \<le> 1000 * d"
    using d(2) by simp
  finally have dD: "D \<le> d * 1000" by simp
  then have D2: "2 powi (- 1022) \<le> d * 1000"
    using D by linarith
  have "hi * D \<le> 2 * D"
    using hi(4) Dpos by (intro mult_right_mono) simp_all
  then have d2: "d \<le> 2 * D"
    using d(3) by linarith
  then have d3: "d * 1000 \<le> 2 powi 1011"
    using D' p by linarith
  then have "d * 1000 \<le> 2 powi 1023"
    using p by linarith
  then obtain m where m: "round64 (d * 1000) = Finite m" "lo * d \<le> m / 1000"
    "m / 1000 \<le> hi * d" "m \<le> hi * (d * 1000)"
    using round64_normal [OF D2] by (auto simp: lo_def hi_def mult.commute)
  have "0 < lo * d"
    using dD Dpos by (simp add: lo_def)
  then have mpos: "0 < m"
    using m(2) by linarith
  then have "0 < \<lceil>m\<rceil>"
    by (simp add: ceiling_less_iff)
  then have c1: "1 \<le> real_of_int \<lceil>m\<rceil>"
    by linarith
  have c2: "m \<le> real_of_int \<lceil>m\<rceil>" "real_of_int \<lceil>m\<rceil> < m + 1"
    by linarith+
  have D3: "2 powi (- 1022) \<le> real_of_int \<lceil>m\<rceil> / 1000"
    using least_normal_le c1 by linarith
  have "hi * (d * 1000) \<le> 2 * (d * 1000)"
    using hi(4) dD Dpos by (intro mult_right_mono) simp_all
  then have "m \<le> 2 powi 1013"
    using m(4) d3 p by linarith
  then have "real_of_int \<lceil>m\<rceil> / 1000 \<le> 2 powi 1023"
    using c2(2) p by linarith
  then obtain x where x: "round64 (real_of_int \<lceil>m\<rceil> / 1000) = Finite x"
    "lo * (real_of_int \<lceil>m\<rceil> / 1000) \<le> x" "x \<le> hi * (real_of_int \<lceil>m\<rceil> / 1000)"
    using round64_normal [OF D3] by (auto simp: lo_def hi_def mult.commute)
  have l3: "m / 1000 \<le> real_of_int \<lceil>m\<rceil> / 1000"
    using c2(1) by simp
  have "lo * (lo * (lo * D)) \<le> lo * (lo * d)"
    using d(2) lo(1) by (intro mult_left_mono) simp_all
  also have "\<dots> \<le> lo * (m / 1000)"
    using m(2) lo(1) by (intro mult_left_mono) simp_all
  also have "\<dots> \<le> lo * (real_of_int \<lceil>m\<rceil> / 1000)"
    using l3 lo(1) by (intro mult_left_mono) simp_all
  also have "\<dots> \<le> x"
    by (rule x(2))
  finally have low: "lo * (lo * lo) * D \<le> x"
    by (simp add: mult.assoc)
  have "(1 - 1 / 2251799813685248) * D \<le> lo * (lo * lo) * D"
    using lo(2) Dpos by (intro mult_right_mono) simp_all
  then have lower: "(1 - 2 powi (- 51)) * D \<le> x"
    unfolding w using low by linarith
  have h3: "real_of_int \<lceil>m\<rceil> / 1000 \<le> m / 1000 + 1 / 1000"
    using c2(2) by simp
  have "x \<le> hi * (real_of_int \<lceil>m\<rceil> / 1000)"
    by (rule x(3))
  also have "\<dots> \<le> hi * (m / 1000 + 1 / 1000)"
    using h3 hi(1) by (intro mult_left_mono) simp_all
  also have "\<dots> \<le> hi * (hi * d + 1 / 1000)"
    using m(3) hi(1) by (intro mult_left_mono) simp_all
  also have "\<dots> \<le> hi * (hi * (hi * D) + 1 / 1000)"
    using d(3) hi(1) by (intro mult_left_mono add_right_mono) simp_all
  finally have up: "x \<le> hi * (hi * hi) * D + hi * (1 / 1000)"
    by (simp add: algebra_simps)
  have "hi * (hi * hi) * D \<le> (1 + 1 / 2251799813685248) * D"
    using hi(2) Dpos by (intro mult_right_mono) simp_all
  moreover have "hi * (1 / 1000) \<le> (1 + 1 / 2251799813685248) * (1 / 1000)"
    using hi(3) by (intro mult_right_mono) simp_all
  ultimately have upper: "x \<le> (1 + 2 powi (- 51)) * (D + 1 / 1000)"
    unfolding w using up by (simp add: algebra_simps)
  show ?thesis
    using d(1) m(1) x(1) lower upper by blast
qed

lemma round64_1: "round64 1 = Finite 1"
  by (subst round64_at [where e = 0]) (simp_all add: round_half_even_def Let_def)

lemma round64_1000: "round64 1000 = Finite 1000"
  by (subst round64_at [where e = 9]) (simp_all add: round_half_even_def Let_def)

lemma timems_of_one_millisecond:
  "number_value (js_divide_1000 (Math_ceil (js_times_1000 (js_minus 1 0)))) = JNumber 1"
  by (simp add: js_minus_def js_times_1000_def Math_ceil_def js_divide_1000_def
      number_value_def round64_1 round64_1000)

section \<open>The recorder's status\<close>

lemma state_apply_call: "state (apply_call c r) = max (state r) (severity c)"
  by (cases c) (simp_all add: debug_def warn_def fail_def skipped_def threw_def
      setState_def logs_push_def)

lemma state_fold_apply_call:
  "state (fold apply_call cs r) = max (state r) (foldr max (map severity cs) 0)"
  by (induction cs arbitrary: r) (simp_all add: state_apply_call max.assoc)

lemma state_apply_calls: "state (apply_calls cs r) = max (state r) (max_severity cs)"
  by (simp add: apply_calls_def max_severity_def state_fold_apply_call)


lemma max_severity_le: "max_severity cs \<le> PassState_num Fail"
proof (induction cs)
  case Nil
  show ?case by (simp add: max_severity_def)
next
  case (Cons c cs)
  have "severity c \<le> 3" by (cases c) simp_all
  with Cons.IH show ?case by (simp add: max_severity_def)
qed


lemma start_fresh:
  "start t0 (new_TestCaseRecorder store a res dbg)
     = Inr ((new_TestCaseRecorder store a res dbg)\<lparr>startTime := t0\<rparr>)"
  by (simp add: start_def assert_def new_TestCaseRecorder_def)

lemma startTime_apply_call: "startTime (apply_call c r) = startTime r"
  by (cases c) (simp_all add: debug_def warn_def fail_def skipped_def threw_def
      setState_def logs_push_def)

lemma startTime_apply_calls: "startTime (apply_calls cs r) = startTime r"
  unfolding apply_calls_def
  by (induction cs arbitrary: r) (simp_all add: startTime_apply_call)

lemma finish_started:
  "0 \<le> startTime r \<Longrightarrow>
   finish t1 r = Inr (r\<lparr>result := (result r)
     (''timems'' \<mapsto> number_value (js_divide_1000 (Math_ceil
                        (js_times_1000 (js_minus t1 (startTime r))))),
      ''status'' \<mapsto> (case PassState_name (state r) of Some s \<Rightarrow> JString s | None \<Rightarrow> JUndefined),
      ''logs'' \<mapsto> JArrayRef (logs r))\<rparr>)"
  by (simp add: finish_def assert_def Let_def)




section \<open>Assertions of \<open>start()\<close> and \<open>finish()\<close>\<close>

lemma startTime_after_cases:
  "clock_ok m \<Longrightarrow>
   (0 \<le> startTime (after m r)) = (0 \<le> startTime r \<or> is_Start m)"
proof (cases m)
  case (Start now)
  assume "clock_ok m"
  with Start show ?thesis
    by (auto simp: after_def start_def assert_def)
next
  case (Finish now)
  then show ?thesis
    by (auto simp: after_def finish_def assert_def Let_def)
next
  case (Log c)
  then show ?thesis
    by (simp add: after_def startTime_apply_call)
next
  case (InjectResult p)
  then show ?thesis
    by (simp add: after_def injectResult_def)
qed

lemma startTime_history:
  "list_all clock_ok ms \<Longrightarrow>
   (0 \<le> startTime (history ms r)) = (0 \<le> startTime r \<or> list_ex is_Start ms)"
  unfolding history_def
proof (induction ms arbitrary: r)
  case Nil
  show ?case by simp
next
  case (Cons m ms)
  then have "clock_ok m" and "list_all clock_ok ms" by simp_all
  then show ?case
    using Cons.IH [of "after m r"] startTime_after_cases [of m r] by auto
qed

lemma start_throws_iff: "(\<exists>e. start now r = Inl e) = (0 \<le> startTime r)"
  by (auto simp: start_def assert_def)

lemma finish_throws_iff: "(\<exists>e. finish now r = Inl e) = (\<not> 0 \<le> startTime r)"
  by (auto simp: finish_def assert_def Let_def)

text \<open>
  C3. On an instance used in any way since its construction, with clock readings that
  are not negative, \<open>start()\<close> throws exactly when \<open>start()\<close> was called on it before,
  and \<open>finish()\<close> throws exactly when \<open>start()\<close> was not called before. On a fresh
  instance \<open>start()\<close> and then \<open>finish()\<close> both return.
\<close>

theorem start_finish_assertions:
  assumes "list_all clock_ok ms" and "0 \<le> t0"
  shows "((\<exists>e. start now (history ms (new_TestCaseRecorder store a res dbg)) = Inl e)
            = list_ex is_Start ms)
       \<and> ((\<exists>e. finish now (history ms (new_TestCaseRecorder store a res dbg)) = Inl e)
            = (\<not> list_ex is_Start ms))
       \<and> (\<exists>r1 r2. start t0 (new_TestCaseRecorder store a res dbg) = Inr r1
              \<and> finish t1 r1 = Inr r2)"
proof -
  let ?r0 = "new_TestCaseRecorder store a res dbg"
  have fresh: "\<not> 0 \<le> startTime ?r0"
    by (simp add: new_TestCaseRecorder_def)
  have started: "(0 \<le> startTime (history ms ?r0)) = list_ex is_Start ms"
    using startTime_history [OF assms(1), of ?r0] fresh by simp
  have s: "(\<exists>e. start now (history ms ?r0) = Inl e) = list_ex is_Start ms"
    using start_throws_iff [of now "history ms ?r0"] started by simp
  have f: "(\<exists>e. finish now (history ms ?r0) = Inl e) = (\<not> list_ex is_Start ms)"
    using finish_throws_iff [of now "history ms ?r0"] started by simp
  have "\<not> (\<exists>e. finish t1 (?r0\<lparr>startTime := t0\<rparr>) = Inl e)"
    using finish_throws_iff [of t1 "?r0\<lparr>startTime := t0\<rparr>"] assms(2) by simp
  then have "\<exists>r2. finish t1 (?r0\<lparr>startTime := t0\<rparr>) = Inr r2"
    by (cases "finish t1 (?r0\<lparr>startTime := t0\<rparr>)") auto
  then have ok: "\<exists>r1 r2. start t0 ?r0 = Inr r1 \<and> finish t1 r1 = Inr r2"
    unfolding start_fresh by blast
  show ?thesis
    using s f ok by blast
qed

theorem start_finish_assertions_witness:
  "list_all clock_ok [Start 1, Log (Warning (an_error ''w'')), Finish 2] \<and> (0::real) \<le> 1
   \<and> (\<exists>e. start 3 (history [Start 1, Log (Warning (an_error ''w'')), Finish 2]
                  (fresh_recorder False)) = Inl e)
   \<and> \<not> (\<exists>e. finish 3 (history [Start 1, Log (Warning (an_error ''w'')), Finish 2]
                  (fresh_recorder False)) = Inl e)
   \<and> (\<exists>r1 r2. start 1 (fresh_recorder False) = Inr r1 \<and> finish 2 r1 = Inr r2)"
proof -
  have h1: "list_all clock_ok [Start 1, Log (Warning (an_error ''w'')), Finish 2]"
    by simp
  have h2: "(0::real) \<le> 1"
    by simp
  have ex: "list_ex is_Start [Start 1, Log (Warning (an_error ''w'')), Finish 2]"
    by simp
  show ?thesis
    using h1 h2 ex
      start_finish_assertions [OF h1 h2, where now = 3 and ?t1.0 = 2
        and store = "\<lambda>_. []" and a = 0 and res = Map.empty and dbg = False]
    unfolding fresh_recorder_def by blast
qed

section \<open>What the logging calls write\<close>

lemma logs_apply_call: "logs (apply_call c r) = logs r"
  by (cases c) (simp_all add: debug_def warn_def fail_def skipped_def threw_def
      setState_def logs_push_def)

lemma result_apply_call: "result (apply_call c r) = result r"
  by (cases c) (simp_all add: debug_def warn_def fail_def skipped_def threw_def
      setState_def logs_push_def)

lemma debugging_apply_call: "debugging (apply_call c r) = debugging r"
  by (cases c) (simp_all add: debug_def warn_def fail_def skipped_def threw_def
      setState_def logs_push_def)

lemma arrays_apply_call:
  "arrays (apply_call c r)
     = (arrays r)(logs r := arrays r (logs r) @ entries_of (debugging r) c)"
  by (cases c) (simp_all add: debug_def warn_def fail_def skipped_def threw_def
      setState_def logs_push_def new_LogMessageWithStack_def)

lemma logs_apply_calls: "logs (apply_calls cs r) = logs r"
  unfolding apply_calls_def
  by (induction cs arbitrary: r) (simp_all add: logs_apply_call)

lemma result_apply_calls: "result (apply_calls cs r) = result r"
  unfolding apply_calls_def
  by (induction cs arbitrary: r) (simp_all add: result_apply_call)

lemma debugging_apply_calls: "debugging (apply_calls cs r) = debugging r"
  unfolding apply_calls_def
  by (induction cs arbitrary: r) (simp_all add: debugging_apply_call)

lemma arrays_apply_calls:
  "arrays (apply_calls cs r)
     = (arrays r)(logs r := arrays r (logs r) @ concat (map (entries_of (debugging r)) cs))"
  unfolding apply_calls_def
proof (induction cs arbitrary: r)
  case Nil
  show ?case by simp
next
  case (Cons c cs)
  show ?case
    by (rule ext)
      (simp add: Cons.IH logs_apply_call debugging_apply_call arrays_apply_call)
qed

lemma state_after_le:
  "state r \<le> PassState_num Fail \<Longrightarrow> state (after m r) \<le> PassState_num Fail"
proof (cases m)
  case (Start now)
  assume "state r \<le> PassState_num Fail"
  with Start show ?thesis
    by (auto simp: after_def start_def assert_def)
next
  case (Finish now)
  assume "state r \<le> PassState_num Fail"
  with Finish show ?thesis
    by (auto simp: after_def finish_def assert_def Let_def)
next
  case (Log c)
  assume a: "state r \<le> PassState_num Fail"
  have "severity c \<le> 3" by (cases c) simp_all
  with Log a show ?thesis
    by (simp add: after_def state_apply_call)
next
  case (InjectResult p)
  assume "state r \<le> PassState_num Fail"
  with InjectResult show ?thesis
    by (simp add: after_def injectResult_def)
qed

lemma state_history_le:
  "state r \<le> PassState_num Fail \<Longrightarrow> state (history ms r) \<le> PassState_num Fail"
  unfolding history_def
proof (induction ms arbitrary: r)
  case Nil
  then show ?case by simp
next
  case (Cons m ms)
  have "state (after m r) \<le> PassState_num Fail"
    using Cons.prems by (rule state_after_le)
  then have "state (fold after ms (after m r)) \<le> PassState_num Fail"
    by (rule Cons.IH)
  then show ?case by simp
qed

lemma state_reachable_le:
  "state (history ms (new_TestCaseRecorder store a res dbg)) \<le> PassState_num Fail"
  by (rule state_history_le) (simp add: new_TestCaseRecorder_def)

text \<open>
  C4. On a recorder used in any way since its construction, \<open>threw(ex)\<close> with the skip
  signal does what \<open>skipped(ex)\<close> does: the status becomes the greater of the old status
  and \<open>skip\<close>, and a \<open>SKIP\<close> entry is appended. With any other exception the status
  becomes \<open>fail\<close> and an \<open>EXCEPTION\<close> entry with the message and the stack of \<open>ex\<close> is
  appended.
\<close>

theorem threw_classifies_exception:
  fixes ms store a res dbg ex
  defines "r \<equiv> history ms (new_TestCaseRecorder store a res dbg)"
  shows "(instanceof_SkipTestCase ex \<longrightarrow>
            threw ex r = skipped ex r
          \<and> state (threw ex r) = max (state r) (PassState_num Skip)
          \<and> PassState_num Skip \<le> state (threw ex r)
          \<and> arrays (threw ex r) (logs (threw ex r))
              = arrays r (logs r)
                @ [\<lparr>name = ''SKIP'', message = ex_message ex, stack = ex_stack ex\<rparr>])
       \<and> (\<not> instanceof_SkipTestCase ex \<longrightarrow>
            state (threw ex r) = PassState_num Fail
          \<and> arrays (threw ex r) (logs (threw ex r))
              = arrays r (logs r)
                @ [\<lparr>name = ''EXCEPTION'', message = ex_message ex, stack = ex_stack ex\<rparr>])"
proof -
  have le: "state r \<le> 3"
    using state_reachable_le [of ms store a res dbg] by (simp add: r_def)
  have skip: "threw ex r = skipped ex r
          \<and> state (threw ex r) = max (state r) (PassState_num Skip)
          \<and> PassState_num Skip \<le> state (threw ex r)
          \<and> arrays (threw ex r) (logs (threw ex r))
              = arrays r (logs r)
                @ [\<lparr>name = ''SKIP'', message = ex_message ex, stack = ex_stack ex\<rparr>]"
    if "instanceof_SkipTestCase ex"
    using that
    by (simp add: threw_def skipped_def setState_def logs_push_def new_LogMessageWithStack_def)
  have other: "state (threw ex r) = PassState_num Fail
          \<and> arrays (threw ex r) (logs (threw ex r))
              = arrays r (logs r)
                @ [\<lparr>name = ''EXCEPTION'', message = ex_message ex, stack = ex_stack ex\<rparr>]"
    if "\<not> instanceof_SkipTestCase ex"
    using that le
    by (simp add: threw_def setState_def logs_push_def new_LogMessageWithStack_def)
  show ?thesis
    using skip other by blast
qed

theorem threw_classifies_exception_witness:
  "instanceof_SkipTestCase (a_skip ''unsupported'')
   \<and> state (threw (a_skip ''unsupported'')
        (history [Start 0, Log (Warning (an_error ''w''))] (fresh_recorder False)))
      = PassState_num Warn
   \<and> \<not> instanceof_SkipTestCase (an_error ''boom'')
   \<and> state (threw (an_error ''boom'')
        (history [Start 0, Log (Warning (an_error ''w''))] (fresh_recorder False)))
      = PassState_num Fail"
proof -
  let ?ms = "[Start 0, Log (Warning (an_error ''w''))]"
  let ?r = "history ?ms (fresh_recorder False)"
  have s: "instanceof_SkipTestCase (a_skip ''unsupported'')"
    by (simp add: a_skip_def)
  have n: "\<not> instanceof_SkipTestCase (an_error ''boom'')"
    by (simp add: an_error_def)
  have r: "state ?r = 2"
    by (simp add: history_def after_def start_def assert_def new_TestCaseRecorder_def
        fresh_recorder_def warn_def setState_def logs_push_def)
  have "state (threw (a_skip ''unsupported'') ?r) = max (state ?r) (PassState_num Skip)"
    using s threw_classifies_exception [where ms = ?ms and store = "\<lambda>_. []" and a = 0
        and res = Map.empty and dbg = False and ex = "a_skip ''unsupported''"]
    unfolding fresh_recorder_def by blast
  then have a: "state (threw (a_skip ''unsupported'') ?r) = PassState_num Warn"
    by (simp add: r)
  have b: "state (threw (an_error ''boom'') ?r) = PassState_num Fail"
    using n threw_classifies_exception [where ms = ?ms and store = "\<lambda>_. []" and a = 0
        and res = Map.empty and dbg = False and ex = "an_error ''boom''"]
    unfolding fresh_recorder_def by blast
  show ?thesis
    using s n a b by blast
qed

section \<open>After \<open>finish()\<close>\<close>

lemma result_logs_finished:
  "finish now r = Inr r' \<Longrightarrow>
   result r' ''logs'' = Some (JArrayRef (logs r')) \<and> logs r' = logs r \<and> arrays r' = arrays r"
  by (auto simp: finish_def assert_def Let_def split: if_splits)

text \<open>
  C2, as stated, fails: \<open>result.logs\<close> is the recorder's own array, so a \<open>warn\<close> after
  \<open>finish()\<close> shows in the finalized record. Here the finalized log is empty, and has
  one entry after the late call.
\<close>

theorem finalized_logs_mutated_counterexample:
  "result_logs (history [Start 0, Finish 1] (fresh_recorder False)) = Some []
   \<and> result_logs (history [Start 0, Finish 1, Log (Warning (an_error ''late''))]
        (fresh_recorder False))
     = Some [\<lparr>name = ''WARN'', message = ''late'', stack = ex_stack (an_error ''late'')\<rparr>]
   \<and> result_logs (history [Start 0, Finish 1, Log (Warning (an_error ''late''))]
        (fresh_recorder False))
     \<noteq> result_logs (history [Start 0, Finish 1] (fresh_recorder False))"
  by (simp add: result_logs_def history_def after_def start_def finish_def assert_def
      fresh_recorder_def new_TestCaseRecorder_def Let_def PassState_name_def
      warn_def setState_def logs_push_def new_LogMessageWithStack_def an_error_def)

text \<open>
  C2, amended. After \<open>finish()\<close> the logging calls, however many, change no field of
  the result record: \<open>status\<close>, \<open>timems\<close> and the reference held in \<open>logs\<close> stay as
  \<open>finish()\<close> wrote them, as do all other arrays of the store. The array \<open>result.logs\<close>
  refers to is the recorder's log, and each call appends its entry to it (\<open>debug\<close> only
  when debugging is enabled).
\<close>

theorem finalized_result_after_logging:
  assumes "finish now r = Inr r'"
  shows "result (apply_calls cs r') = result r'
       \<and> result (apply_calls cs r') ''logs'' = Some (JArrayRef (logs r'))
       \<and> (\<forall>a. a \<noteq> logs r' \<longrightarrow> arrays (apply_calls cs r') a = arrays r' a)
       \<and> result_logs r' = Some (arrays r (logs r))
       \<and> result_logs (apply_calls cs r')
           = Some (arrays r (logs r) @ concat (map (entries_of (debugging r')) cs))"
proof -
  have fin: "result r' ''logs'' = Some (JArrayRef (logs r'))" "logs r' = logs r"
    "arrays r' = arrays r"
    using result_logs_finished [OF assms] by simp_all
  have res: "result (apply_calls cs r') = result r'"
    by (rule result_apply_calls)
  have others: "\<forall>a. a \<noteq> logs r' \<longrightarrow> arrays (apply_calls cs r') a = arrays r' a"
    by (simp add: arrays_apply_calls)
  have before: "result_logs r' = Some (arrays r (logs r))"
    by (simp add: result_logs_def fin)
  have after: "result_logs (apply_calls cs r')
           = Some (arrays r (logs r) @ concat (map (entries_of (debugging r')) cs))"
    by (simp add: result_logs_def res fin(1) arrays_apply_calls) (simp add: fin)
  show ?thesis
    using res fin(1) others before after by simp
qed

theorem finalized_result_after_logging_witness:
  "finish 1 ((fresh_recorder False)\<lparr>startTime := 0\<rparr>)
     = Inr ((fresh_recorder False)\<lparr>startTime := 0,
          result := [''timems'' \<mapsto> JNumber 1, ''status'' \<mapsto> JString ''pass'',
                     ''logs'' \<mapsto> JArrayRef 0]\<rparr>)
   \<and> result_logs (apply_calls [Failure (an_error ''late''), Debug (an_error ''d'')]
        ((fresh_recorder False)\<lparr>startTime := 0,
          result := [''timems'' \<mapsto> JNumber 1, ''status'' \<mapsto> JString ''pass'',
                     ''logs'' \<mapsto> JArrayRef 0]\<rparr>))
     = Some [\<lparr>name = ''FAIL'', message = ''late'', stack = ex_stack (an_error ''late'')\<rparr>]
   \<and> result (apply_calls [Failure (an_error ''late''), Debug (an_error ''d'')]
        ((fresh_recorder False)\<lparr>startTime := 0,
          result := [''timems'' \<mapsto> JNumber 1, ''status'' \<mapsto> JString ''pass'',
                     ''logs'' \<mapsto> JArrayRef 0]\<rparr>)) ''status''
     = Some (JString ''pass'')"
proof -
  let ?r = "(fresh_recorder False)\<lparr>startTime := 0\<rparr>"
  let ?r' = "(fresh_recorder False)\<lparr>startTime := 0,
          result := [''timems'' \<mapsto> JNumber 1, ''status'' \<mapsto> JString ''pass'',
                     ''logs'' \<mapsto> JArrayRef 0]\<rparr>"
  let ?cs = "[Failure (an_error ''late''), Debug (an_error ''d'')]"
  have h: "finish 1 ?r = Inr ?r'"
    by (simp add: finish_def assert_def fresh_recorder_def new_TestCaseRecorder_def Let_def
        PassState_name_def timems_of_one_millisecond)
  have e: "arrays ?r (logs ?r) @ concat (map (entries_of (debugging ?r')) ?cs)
         = [\<lparr>name = ''FAIL'', message = ''late'', stack = ex_stack (an_error ''late'')\<rparr>]"
    by (simp add: fresh_recorder_def new_TestCaseRecorder_def an_error_def)
  have st: "result ?r' ''status'' = Some (JString ''pass'')"
    by simp
  note T = finalized_result_after_logging [OF h, where cs = ?cs]
  have a: "result_logs (apply_calls ?cs ?r')
      = Some [\<lparr>name = ''FAIL'', message = ''late'', stack = ex_stack (an_error ''late'')\<rparr>]"
    using T e by metis
  have b: "result (apply_calls ?cs ?r') ''status'' = Some (JString ''pass'')"
    using T st by metis
  show ?thesis
    using h a b by blast
qed

section \<open>What \<open>finish()\<close> writes\<close>

lemma timems_not_negative:
  assumes "0 \<le> d0"
  shows "number_value (js_divide_1000 (Math_ceil (js_times_1000 (round64 d0)))) = JInfinity
       \<or> (\<exists>d m x. round64 d0 = Finite d \<and> 0 \<le> d
              \<and> round64 (d * 1000) = Finite m \<and> 0 \<le> m
              \<and> round64 (of_int \<lceil>m\<rceil> / 1000) = Finite x \<and> 0 \<le> x
              \<and> number_value (js_divide_1000 (Math_ceil (js_times_1000 (round64 d0))))
                  = JNumber x)"
proof -
  consider "round64 d0 = Infinity" | d where "round64 d0 = Finite d" "0 \<le> d"
    using round64_nonneg [OF assms] by blast
  then show ?thesis
  proof cases
    case 1
    then show ?thesis
      by (simp add: js_times_1000_def Math_ceil_def js_divide_1000_def number_value_def)
  next
    case (2 d)
    have "0 \<le> d * 1000" using 2(2) by simp
    then consider "round64 (d * 1000) = Infinity"
      | m where "round64 (d * 1000) = Finite m" "0 \<le> m"
      using round64_nonneg by blast
    then show ?thesis
    proof cases
      case 1
      with 2 show ?thesis
        by (simp add: js_times_1000_def Math_ceil_def js_divide_1000_def number_value_def)
    next
      case (2 m)
      note m = this
      have "0 \<le> real_of_int \<lceil>m\<rceil> / 1000"
        using m(2) by simp
      then consider "round64 (real_of_int \<lceil>m\<rceil> / 1000) = Infinity"
        | x where "round64 (real_of_int \<lceil>m\<rceil> / 1000) = Finite x" "0 \<le> x"
        using round64_nonneg by blast
      then show ?thesis
      proof cases
        case 1
        with m \<open>round64 d0 = Finite d\<close> show ?thesis
          by (simp add: js_times_1000_def Math_ceil_def js_divide_1000_def number_value_def)
      next
        case (2 x)
        with m \<open>round64 d0 = Finite d\<close> \<open>0 \<le> d\<close> show ?thesis
          by (simp add: js_times_1000_def Math_ceil_def js_divide_1000_def number_value_def)
      qed
    qed
  qed
qed

lemma max_severity_by_calls:
  "max_severity cs =
     (if list_ex fails cs then 3
      else if list_ex warns cs then 2
      else if list_ex skips cs then 1
      else 0)"
proof (induction cs)
  case Nil
  show ?case by (simp add: max_severity_def)
next
  case (Cons c cs)
  have "max_severity (c # cs) = max (severity c) (max_severity cs)"
    by (simp add: max_severity_def)
  with Cons.IH show ?case
    by (cases c) (auto simp: max_def)
qed

lemma run_case_fresh_result:
  assumes "0 \<le> t0"
  shows "\<exists>r'. run_case t0 cs t1 (new_TestCaseRecorder store a res dbg) = Inr r'
           \<and> state r' = max_severity cs
           \<and> logs r' = a
           \<and> arrays r' a = concat (map (entries_of dbg) cs)
           \<and> result r' = res
               (''timems'' \<mapsto> number_value (js_divide_1000 (Math_ceil
                                  (js_times_1000 (js_minus t1 t0)))),
                ''status'' \<mapsto> (case PassState_name (max_severity cs) of
                                 Some s \<Rightarrow> JString s | None \<Rightarrow> JUndefined),
                ''logs'' \<mapsto> JArrayRef a)"
proof -
  let ?r1 = "(new_TestCaseRecorder store a res dbg)\<lparr>startTime := t0\<rparr>"
  let ?r2 = "apply_calls cs ?r1"
  have st: "0 \<le> startTime ?r2"
    using assms by (simp add: startTime_apply_calls)
  have f: "startTime ?r2 = t0" "state ?r2 = max_severity cs" "logs ?r2 = a"
    "result ?r2 = res" "arrays ?r2 a = concat (map (entries_of dbg) cs)"
    by (simp_all add: startTime_apply_calls state_apply_calls logs_apply_calls
        result_apply_calls arrays_apply_calls new_TestCaseRecorder_def)
  show ?thesis
    unfolding run_case_def start_fresh
    by (simp add: finish_started [OF st] f)
qed

text \<open>
  C5, as stated, fails: \<open>timems\<close> is computed in binary64 arithmetic, each operation
  rounded. With the clock readings \<open>226.07500000000002\<close> at \<open>start()\<close> and \<open>699.105\<close> at
  \<open>finish()\<close> (both doubles), \<open>finish()\<close> stores \<open>473.03\<close>, which lies below the elapsed
  time and is not \<open>ceil((t1 - t0) * 1000) / 1000 = 473.031\<close>.
\<close>

theorem timems_below_elapsed_counterexample:
  "round64 (7954306919982695 / 35184372088832) = Finite (7954306919982695 / 35184372088832)
   \<and> round64 (1537348153072681 / 2199023255552) = Finite (1537348153072681 / 2199023255552)
   \<and> (0::real) \<le> 7954306919982695 / 35184372088832
   \<and> (7954306919982695 / 35184372088832 :: real) \<le> 1537348153072681 / 2199023255552
   \<and> result (history [Start (7954306919982695 / 35184372088832),
                       Finish (1537348153072681 / 2199023255552)] (fresh_recorder False))
        ''timems''
     = Some (JNumber (2080407941147525 / 4398046511104))
   \<and> (2080407941147525 / 4398046511104 :: real)
       < 1537348153072681 / 2199023255552 - 7954306919982695 / 35184372088832
   \<and> (2080407941147525 / 4398046511104 :: real)
       \<noteq> of_int \<lceil>(1537348153072681 / 2199023255552 - 7954306919982695 / 35184372088832)
                   * (1000::real)\<rceil> / 1000"
proof -
  have t0: "round64 (7954306919982695 / 35184372088832)
      = Finite (7954306919982695 / 35184372088832)"
    by (subst round64_at [where e = 7]) (simp_all add: round_half_even_def Let_def)
  have t1: "round64 (1537348153072681 / 2199023255552)
      = Finite (1537348153072681 / 2199023255552)"
    by (subst round64_at [where e = 9]) (simp_all add: round_half_even_def Let_def)
  have sub: "js_minus (1537348153072681 / 2199023255552) (7954306919982695 / 35184372088832)
      = Finite (2080407941147525 / 4398046511104)"
    unfolding js_minus_def
    by (subst round64_at [where e = 8]) (simp_all add: round_half_even_def Let_def)
  have mul: "js_times_1000 (Finite (2080407941147525 / 4398046511104)) = Finite 473030"
    unfolding js_times_1000_def
    by (simp, subst round64_at [where e = 18]) (simp_all add: round_half_even_def Let_def)
  have quot: "js_divide_1000 (Finite 473030) = Finite (2080407941147525 / 4398046511104)"
    unfolding js_divide_1000_def
    by (simp, subst round64_at [where e = 8]) (simp_all add: round_half_even_def Let_def)
  have stored: "result (history [Start (7954306919982695 / 35184372088832),
                       Finish (1537348153072681 / 2199023255552)] (fresh_recorder False))
        ''timems''
     = Some (JNumber (2080407941147525 / 4398046511104))"
    by (simp add: history_def after_def start_def finish_def assert_def fresh_recorder_def
        new_TestCaseRecorder_def Let_def sub mul quot Math_ceil_def number_value_def)
  have below: "(2080407941147525 / 4398046511104 :: real)
       < 1537348153072681 / 2199023255552 - 7954306919982695 / 35184372088832"
    by simp
  have exact: "(2080407941147525 / 4398046511104 :: real)
       \<noteq> of_int \<lceil>(1537348153072681 / 2199023255552 - 7954306919982695 / 35184372088832)
                   * (1000::real)\<rceil> / 1000"
    by simp
  show ?thesis
    using t0 t1 stored below exact by simp
qed

lemma timems_of_no_time:
  "number_value (js_divide_1000 (Math_ceil (js_times_1000 (round64 0)))) = JNumber 0"
  by (simp add: round64_def js_times_1000_def Math_ceil_def js_divide_1000_def number_value_def)

text \<open>
  C5, amended. On a fresh recorder started at \<open>t0\<close> and finished at \<open>t1\<close>, with the
  clock not negative and not running backwards, \<open>finish()\<close> returns and writes into
  \<open>timems\<close> the value of \<open>Math.ceil((t1 - t0) * 1000) / 1000\<close> in binary64 arithmetic:
  the difference, the product and the quotient are each rounded to the nearest double,
  and the ceiling is a whole number of microseconds. The value stored is not negative
  (or is \<open>Infinity\<close>, when the product overflows); it is 0 when no time has passed; and
  for an elapsed time from \<open>2 ^ -1022\<close> to \<open>2 ^ 1000\<close> milliseconds it is finite, at least
  \<open>(1 - 2 ^ -51) * (t1 - t0)\<close> and at most \<open>(1 + 2 ^ -51) * (t1 - t0 + 0.001)\<close>: the
  elapsed time rounded up to the microsecond, to within the rounding of the three
  operations. \<open>status\<close> is the name of the numeric status, \<open>'pass'\<close> for 0, \<open>'skip'\<close> for
  1, \<open>'warn'\<close> for 2 and \<open>'fail'\<close> for 3, that is \<open>'fail'\<close> when a call failed, else
  \<open>'warn'\<close> when one warned, else \<open>'skip'\<close> when one skipped, else \<open>'pass'\<close>. \<open>logs\<close>
  refers to the entries of the calls in the order they were made. The calls \<open>warn\<close> then
  \<open>fail\<close> give status \<open>'fail'\<close> and a \<open>WARN\<close> entry followed by a \<open>FAIL\<close> entry.
\<close>

theorem finish_writes_result:
  assumes "0 \<le> t0" and "t0 \<le> t1"
  shows "\<exists>r'. run_case t0 cs t1 (new_TestCaseRecorder store a res dbg) = Inr r'
       \<and> result r' ''timems''
           = Some (number_value (js_divide_1000 (Math_ceil (js_times_1000 (js_minus t1 t0)))))
       \<and> (result r' ''timems'' = Some JInfinity
          \<or> (\<exists>d m x. round64 (t1 - t0) = Finite d \<and> 0 \<le> d
                 \<and> round64 (d * 1000) = Finite m \<and> 0 \<le> m
                 \<and> round64 (of_int \<lceil>m\<rceil> / 1000) = Finite x \<and> 0 \<le> x
                 \<and> result r' ''timems'' = Some (JNumber x)))
       \<and> (t1 = t0 \<longrightarrow> result r' ''timems'' = Some (JNumber 0))
       \<and> (2 powi (- 1022) \<le> t1 - t0 \<and> t1 - t0 \<le> 2 powi 1000 \<longrightarrow>
            (\<exists>x. result r' ''timems'' = Some (JNumber x)
               \<and> (1 - 2 powi (- 51)) * (t1 - t0) \<le> x
               \<and> x \<le> (1 + 2 powi (- 51)) * (t1 - t0 + 1 / 1000)))
       \<and> state r' \<le> 3
       \<and> result r' ''status''
           = Some (JString (if state r' = 0 then ''pass''
                            else if state r' = 1 then ''skip''
                            else if state r' = 2 then ''warn''
                            else ''fail''))
       \<and> result r' ''status''
           = Some (JString (if list_ex fails cs then ''fail''
                            else if list_ex warns cs then ''warn''
                            else if list_ex skips cs then ''skip''
                            else ''pass''))
       \<and> result r' ''logs'' = Some (JArrayRef (logs r'))
       \<and> result_logs r' = Some (concat (map (entries_of dbg) cs))
       \<and> (cs = [Warning e1, Failure e2] \<longrightarrow>
            result r' ''status'' = Some (JString ''fail'')
          \<and> result_logs r'
              = Some [\<lparr>name = ''WARN'', message = ex_message e1, stack = ex_stack e1\<rparr>,
                      \<lparr>name = ''FAIL'', message = ex_message e2, stack = ex_stack e2\<rparr>])"
proof -
  obtain r' where r': "run_case t0 cs t1 (new_TestCaseRecorder store a res dbg) = Inr r'"
    "state r' = max_severity cs" "logs r' = a"
    "arrays r' a = concat (map (entries_of dbg) cs)"
    "result r' = res
               (''timems'' \<mapsto> number_value (js_divide_1000 (Math_ceil
                                  (js_times_1000 (js_minus t1 t0)))),
                ''status'' \<mapsto> (case PassState_name (max_severity cs) of
                                 Some s \<Rightarrow> JString s | None \<Rightarrow> JUndefined),
                ''logs'' \<mapsto> JArrayRef a)"
    using run_case_fresh_result [OF assms(1)] by blast
  have d: "0 \<le> t1 - t0"
    using assms(2) by simp
  have tm: "result r' ''timems''
      = Some (number_value (js_divide_1000 (Math_ceil (js_times_1000 (js_minus t1 t0)))))"
    by (simp add: r'(5))
  have nn: "result r' ''timems'' = Some JInfinity
          \<or> (\<exists>d m x. round64 (t1 - t0) = Finite d \<and> 0 \<le> d
                 \<and> round64 (d * 1000) = Finite m \<and> 0 \<le> m
                 \<and> round64 (of_int \<lceil>m\<rceil> / 1000) = Finite x \<and> 0 \<le> x
                 \<and> result r' ''timems'' = Some (JNumber x))"
    using timems_not_negative [OF d] unfolding tm js_minus_def by simp
  have zero: "result r' ''timems'' = Some (JNumber 0)" if "t1 = t0"
    using that timems_of_no_time unfolding tm js_minus_def by simp
  have near: "\<exists>x. result r' ''timems'' = Some (JNumber x)
               \<and> (1 - 2 powi (- 51)) * (t1 - t0) \<le> x
               \<and> x \<le> (1 + 2 powi (- 51)) * (t1 - t0 + 1 / 1000)"
    if range: "2 powi (- 1022) \<le> t1 - t0 \<and> t1 - t0 \<le> 2 powi 1000"
  proof -
    obtain d m x where b: "round64 (t1 - t0) = Finite d" "round64 (d * 1000) = Finite m"
      "round64 (of_int \<lceil>m\<rceil> / 1000) = Finite x"
      "(1 - 2 powi (- 51)) * (t1 - t0) \<le> x"
      "x \<le> (1 + 2 powi (- 51)) * (t1 - t0 + 1 / 1000)"
      using timems_bounds [of "t1 - t0"] range by blast
    have "result r' ''timems'' = Some (JNumber x)"
      unfolding tm
      by (simp add: js_minus_def js_times_1000_def Math_ceil_def js_divide_1000_def
          number_value_def b(1) b(2) b(3))
    then show ?thesis
      using b(4) b(5) by blast
  qed
  have le: "state r' \<le> 3"
    using max_severity_le [of cs] by (simp add: r'(2))
  have stat: "result r' ''status''
           = Some (JString (if state r' = 0 then ''pass''
                            else if state r' = 1 then ''skip''
                            else if state r' = 2 then ''warn''
                            else ''fail''))"
    using le by (auto simp: r'(5) r'(2) [symmetric] PassState_name_def)
  have by_calls: "result r' ''status''
           = Some (JString (if list_ex fails cs then ''fail''
                            else if list_ex warns cs then ''warn''
                            else if list_ex skips cs then ''skip''
                            else ''pass''))"
    unfolding stat r'(2) max_severity_by_calls by simp
  have lg: "result r' ''logs'' = Some (JArrayRef (logs r'))"
    by (simp add: r'(5) r'(3))
  have rl: "result_logs r' = Some (concat (map (entries_of dbg) cs))"
    by (simp add: result_logs_def lg r'(3) r'(4))
  have example: "result r' ''status'' = Some (JString ''fail'')
          \<and> result_logs r'
              = Some [\<lparr>name = ''WARN'', message = ex_message e1, stack = ex_stack e1\<rparr>,
                      \<lparr>name = ''FAIL'', message = ex_message e2, stack = ex_stack e2\<rparr>]"
    if "cs = [Warning e1, Failure e2]"
    using that rl by_calls by simp
  show ?thesis
    using r'(1) tm nn zero near le stat by_calls lg rl example by blast
qed

theorem finish_writes_result_witness:
  "(0::real) \<le> 2 \<and> (2::real) \<le> 20481 / 8192
   \<and> (2::real) powi (- 1022) \<le> 20481 / 8192 - 2 \<and> (20481 / 8192 - 2 :: real) \<le> 2 powi 1000
   \<and> (\<exists>r'. run_case 2 [Warning (an_error ''w1''), Failure (an_error ''f1'')] (20481 / 8192)
              (fresh_recorder False) = Inr r'
        \<and> result r' ''timems'' = Some (JNumber (4512606826625237 / 9007199254740992))
        \<and> result r' ''status'' = Some (JString ''fail'')
        \<and> result_logs r'
            = Some [\<lparr>name = ''WARN'', message = ''w1'', stack = ex_stack (an_error ''w1'')\<rparr>,
                    \<lparr>name = ''FAIL'', message = ''f1'', stack = ex_stack (an_error ''f1'')\<rparr>])
   \<and> (1 - 2 powi (- 51)) * (20481 / 8192 - 2) \<le> (4512606826625237 / 9007199254740992 :: real)
   \<and> (4512606826625237 / 9007199254740992 :: real)
       \<le> (1 + 2 powi (- 51)) * (20481 / 8192 - 2 + 1 / 1000)"
proof -
  let ?cs = "[Warning (an_error ''w1''), Failure (an_error ''f1'')]"
  have h1: "(0::real) \<le> 2" by simp
  have h2: "(2::real) \<le> 20481 / 8192" by simp
  have h3: "(2::real) powi (- 1022) \<le> 20481 / 8192 - 2"
    using least_normal_le by simp
  have h4: "(20481 / 8192 - 2 :: real) \<le> 2 powi 1000"
    by simp
  have sub: "js_minus (20481 / 8192) 2 = Finite (4097 / 8192)"
    unfolding js_minus_def
    by (simp, subst round64_at [where e = "- 1"]) (simp_all add: round_half_even_def Let_def)
  have mul: "js_times_1000 (Finite (4097 / 8192)) = Finite (512125 / 1024)"
    unfolding js_times_1000_def
    by (simp, subst round64_at [where e = 8]) (simp_all add: round_half_even_def Let_def)
  have quot: "js_divide_1000 (Finite 501) = Finite (4512606826625237 / 9007199254740992)"
    unfolding js_divide_1000_def
    by (simp, subst round64_at [where e = "- 1"]) (simp_all add: round_half_even_def Let_def)
  have c: "number_value (js_divide_1000 (Math_ceil (js_times_1000 (js_minus (20481 / 8192) 2))))
      = JNumber (4512606826625237 / 9007199254740992)"
    by (simp add: sub mul Math_ceil_def quot number_value_def)
  have m: "ex_message (an_error ''w1'') = ''w1''" "ex_message (an_error ''f1'') = ''f1''"
    by (simp_all add: an_error_def)
  obtain r' where r': "run_case 2 ?cs (20481 / 8192) (fresh_recorder False) = Inr r'"
    "result r' ''timems''
       = Some (number_value (js_divide_1000 (Math_ceil (js_times_1000 (js_minus (20481 / 8192) 2)))))"
    "result r' ''status'' = Some (JString ''fail'')"
    "result_logs r'
       = Some [\<lparr>name = ''WARN'', message = ''w1'', stack = ex_stack (an_error ''w1'')\<rparr>,
               \<lparr>name = ''FAIL'', message = ''f1'', stack = ex_stack (an_error ''f1'')\<rparr>]"
    "\<exists>x. result r' ''timems'' = Some (JNumber x)
        \<and> (1 - 2 powi (- 51)) * (20481 / 8192 - 2) \<le> x
        \<and> x \<le> (1 + 2 powi (- 51)) * (20481 / 8192 - 2 + 1 / 1000)"
    using finish_writes_result [OF h1 h2, where cs = ?cs
        and ?e1.0 = "an_error ''w1''" and ?e2.0 = "an_error ''f1''"
        and store = "\<lambda>_. []" and a = 0 and res = Map.empty and dbg = False] h3 h4
    unfolding fresh_recorder_def m by blast
  have t: "result r' ''timems'' = Some (JNumber (4512606826625237 / 9007199254740992))"
    using r'(2) unfolding c .
  have b: "(1 - 2 powi (- 51)) * (20481 / 8192 - 2) \<le> (4512606826625237 / 9007199254740992 :: real)"
    "(4512606826625237 / 9007199254740992 :: real)
       \<le> (1 + 2 powi (- 51)) * (20481 / 8192 - 2 + 1 / 1000)"
    using r'(5) unfolding t by auto
  show ?thesis
    using h1 h2 h3 h4 r'(1) t r'(3) r'(4) b by blast
qed

section \<open>\<open>debug\<close> and the debugging flag\<close>

lemma entries_without_debugging:
  "concat (map (entries_of False) cs)
     = concat (map (entries_of True) (filter (\<lambda>c. \<not> is_Debug c) cs))"
proof (induction cs)
  case Nil
  show ?case by simp
next
  case (Cons c cs)
  then show ?case by (cases c) simp_all
qed

lemma no_DEBUG_entry:
  "l \<in> set (concat (map (entries_of False) cs)) \<Longrightarrow> name l \<noteq> ''DEBUG''"
proof (induction cs)
  case Nil
  then show ?case by simp
next
  case (Cons c cs)
  then show ?case by (cases c) (auto split: if_splits)
qed

text \<open>
  C6. With the debugging flag false \<open>debug(ex)\<close> returns the recorder as it was; with
  the flag true it appends a \<open>DEBUG\<close> entry (without stack) to the log and changes no
  other array. In both cases the status and the result record stay. A fresh recorder
  built with the flag false finishes with the entries of the other calls only, none of
  them tagged \<open>DEBUG\<close>; built with the flag true it finishes with the entry of every
  call, those of \<open>debug\<close> among them.
\<close>

theorem debug_obeys_debugging_flag:
  "(\<not> debugging r \<longrightarrow> debug ex r = r)
   \<and> (debugging r \<longrightarrow>
        arrays (debug ex r)
          = (arrays r)(logs r := arrays r (logs r)
               @ [\<lparr>name = ''DEBUG'', message = ex_message ex, stack = None\<rparr>])
      \<and> logs (debug ex r) = logs r)
   \<and> state (debug ex r) = state r
   \<and> result (debug ex r) = result r
   \<and> (0 \<le> t0 \<longrightarrow>
        (\<exists>r'. run_case t0 cs t1 (new_TestCaseRecorder store a res False) = Inr r'
           \<and> result_logs r'
               = Some (concat (map (entries_of True) (filter (\<lambda>c. \<not> is_Debug c) cs)))
           \<and> (\<forall>l \<in> set (arrays r' (logs r')). name l \<noteq> ''DEBUG''))
      \<and> (\<exists>r'. run_case t0 cs t1 (new_TestCaseRecorder store a res True) = Inr r'
           \<and> result_logs r' = Some (concat (map (entries_of True) cs))
           \<and> entries_of True (Debug ex)
               = [\<lparr>name = ''DEBUG'', message = ex_message ex, stack = None\<rparr>]))"
proof -
  have off: "debug ex r = r" if "\<not> debugging r"
    using that by (simp add: debug_def)
  have on: "arrays (debug ex r)
          = (arrays r)(logs r := arrays r (logs r)
               @ [\<lparr>name = ''DEBUG'', message = ex_message ex, stack = None\<rparr>])
      \<and> logs (debug ex r) = logs r" if "debugging r"
    using that by (simp add: debug_def logs_push_def new_LogMessageWithStack_def)
  have st: "state (debug ex r) = state r"
    by (simp add: debug_def logs_push_def)
  have res: "result (debug ex r) = result r"
    by (simp add: debug_def logs_push_def)
  have fin_off: "\<exists>r'. run_case t0 cs t1 (new_TestCaseRecorder store a res False) = Inr r'
           \<and> result_logs r'
               = Some (concat (map (entries_of True) (filter (\<lambda>c. \<not> is_Debug c) cs)))
           \<and> (\<forall>l \<in> set (arrays r' (logs r')). name l \<noteq> ''DEBUG'')"
    if t: "0 \<le> t0"
  proof -
    obtain r' where r': "run_case t0 cs t1 (new_TestCaseRecorder store a res False) = Inr r'"
      "logs r' = a" "arrays r' a = concat (map (entries_of False) cs)"
      "result r' ''logs'' = Some (JArrayRef a)"
      using run_case_fresh_result [OF t, of cs t1 store a res False] by auto
    have "result_logs r' = Some (concat (map (entries_of False) cs))"
      by (simp add: result_logs_def r')
    moreover have "\<forall>l \<in> set (arrays r' (logs r')). name l \<noteq> ''DEBUG''"
      using no_DEBUG_entry [of _ cs] by (simp add: r')
    ultimately show ?thesis
      using r'(1) entries_without_debugging [of cs] by auto
  qed
  have fin_on: "\<exists>r'. run_case t0 cs t1 (new_TestCaseRecorder store a res True) = Inr r'
           \<and> result_logs r' = Some (concat (map (entries_of True) cs))
           \<and> entries_of True (Debug ex)
               = [\<lparr>name = ''DEBUG'', message = ex_message ex, stack = None\<rparr>]"
    if t: "0 \<le> t0"
  proof -
    obtain r' where r': "run_case t0 cs t1 (new_TestCaseRecorder store a res True) = Inr r'"
      "logs r' = a" "arrays r' a = concat (map (entries_of True) cs)"
      "result r' ''logs'' = Some (JArrayRef a)"
      using run_case_fresh_result [OF t, of cs t1 store a res True] by auto
    have "result_logs r' = Some (concat (map (entries_of True) cs))"
      by (simp add: result_logs_def r')
    then show ?thesis
      using r'(1) by auto
  qed
  show ?thesis
    using off on st res fin_off fin_on by blast
qed

theorem debug_obeys_debugging_flag_witness:
  "\<not> debugging (fresh_recorder False) \<and> debugging (fresh_recorder True) \<and> (0::real) \<le> 1
   \<and> debug (an_error ''d'') (fresh_recorder False) = fresh_recorder False
   \<and> arrays (debug (an_error ''d'') (fresh_recorder True)) 0
       = [\<lparr>name = ''DEBUG'', message = ''d'', stack = None\<rparr>]
   \<and> (\<exists>r'. run_case 1 [Debug (an_error ''d''), Warning (an_error ''w'')] 2
               (fresh_recorder False) = Inr r'
          \<and> result_logs r'
              = Some [\<lparr>name = ''WARN'', message = ''w'', stack = ex_stack (an_error ''w'')\<rparr>])
   \<and> (\<exists>r'. run_case 1 [Debug (an_error ''d''), Warning (an_error ''w'')] 2
               (fresh_recorder True) = Inr r'
          \<and> result_logs r'
              = Some [\<lparr>name = ''DEBUG'', message = ''d'', stack = None\<rparr>,
                      \<lparr>name = ''WARN'', message = ''w'', stack = ex_stack (an_error ''w'')\<rparr>])"
proof -
  let ?cs = "[Debug (an_error ''d''), Warning (an_error ''w'')]"
  have h0: "\<not> debugging (fresh_recorder False)" and h1: "debugging (fresh_recorder True)"
    by (simp_all add: fresh_recorder_def new_TestCaseRecorder_def)
  have h2: "(0::real) \<le> 1" by simp
  have f: "logs (fresh_recorder True) = 0" "arrays (fresh_recorder True) 0 = []"
    by (simp_all add: fresh_recorder_def new_TestCaseRecorder_def)
  have m: "ex_message (an_error ''d'') = ''d''" "ex_message (an_error ''w'') = ''w''"
    by (simp_all add: an_error_def)
  have e: "concat (map (entries_of True) (filter (\<lambda>c. \<not> is_Debug c) ?cs))
        = [\<lparr>name = ''WARN'', message = ''w'', stack = ex_stack (an_error ''w'')\<rparr>]"
    "concat (map (entries_of True) ?cs)
        = [\<lparr>name = ''DEBUG'', message = ''d'', stack = None\<rparr>,
           \<lparr>name = ''WARN'', message = ''w'', stack = ex_stack (an_error ''w'')\<rparr>]"
    by (simp_all add: m)
  note T0 = debug_obeys_debugging_flag [where r = "fresh_recorder False"
      and ex = "an_error ''d''" and ?t0.0 = 1 and ?t1.0 = 2 and cs = ?cs
      and store = "\<lambda>_. []" and a = 0 and res = Map.empty, folded fresh_recorder_def]
  note T1 = debug_obeys_debugging_flag [where r = "fresh_recorder True"
      and ex = "an_error ''d''" and ?t0.0 = 1 and ?t1.0 = 2 and cs = ?cs
      and store = "\<lambda>_. []" and a = 0 and res = Map.empty, folded fresh_recorder_def]
  have a: "debug (an_error ''d'') (fresh_recorder False) = fresh_recorder False"
    using T0 h0 by blast
  have "arrays (debug (an_error ''d'') (fresh_recorder True))
          = (arrays (fresh_recorder True))(logs (fresh_recorder True) :=
               arrays (fresh_recorder True) (logs (fresh_recorder True))
               @ [\<lparr>name = ''DEBUG'', message = ex_message (an_error ''d''), stack = None\<rparr>])"
    using T1 h1 by blast
  then have b: "arrays (debug (an_error ''d'') (fresh_recorder True)) 0
       = [\<lparr>name = ''DEBUG'', message = ''d'', stack = None\<rparr>]"
    by (simp add: f m)
  have c: "\<exists>r'. run_case 1 ?cs 2 (fresh_recorder False) = Inr r'
          \<and> result_logs r'
              = Some [\<lparr>name = ''WARN'', message = ''w'', stack = ex_stack (an_error ''w'')\<rparr>]"
    using T0 h2 unfolding e by blast
  have d: "\<exists>r'. run_case 1 ?cs 2 (fresh_recorder True) = Inr r'
          \<and> result_logs r'
              = Some [\<lparr>name = ''DEBUG'', message = ''d'', stack = None\<rparr>,
                      \<lparr>name = ''WARN'', message = ''w'', stack = ex_stack (an_error ''w'')\<rparr>]"
    using T1 h2 unfolding e by blast
  show ?thesis
    using h0 h1 h2 a b c d by blast
qed

section \<open>\<open>injectResult\<close>\<close>

text \<open>
  C9. \<open>injectResult(p)\<close> gives every field named in \<open>p\<close> the value \<open>p\<close> has for it and
  leaves every other field of the result record as it was; the numeric status, the
  start time, the debugging flag, the log reference and all arrays are unchanged, so
  an injected \<open>status\<close> field does not escalate the recorder's status.
\<close>

theorem injectResult_sets_named_fields_only:
  "(\<forall>k v. p k = Some v \<longrightarrow> result (injectResult p r) k = Some v)
   \<and> (\<forall>k. p k = None \<longrightarrow> result (injectResult p r) k = result r k)
   \<and> state (injectResult p r) = state r
   \<and> logs (injectResult p r) = logs r
   \<and> arrays (injectResult p r) = arrays r
   \<and> startTime (injectResult p r) = startTime r
   \<and> debugging (injectResult p r) = debugging r"
  by (simp add: injectResult_def map_add_def)

theorem injectResult_sets_named_fields_only_witness:
  "[''status'' \<mapsto> JString ''fail''] ''status'' = Some (JString ''fail'')
   \<and> [''status'' \<mapsto> JString ''fail''] ''timems'' = None
   \<and> result (injectResult [''status'' \<mapsto> JString ''fail'']
        ((fresh_recorder False)\<lparr>result := [''timems'' \<mapsto> JNumber 3]\<rparr>)) ''status''
       = Some (JString ''fail'')
   \<and> result (injectResult [''status'' \<mapsto> JString ''fail'']
        ((fresh_recorder False)\<lparr>result := [''timems'' \<mapsto> JNumber 3]\<rparr>)) ''timems''
       = Some (JNumber 3)
   \<and> state (injectResult [''status'' \<mapsto> JString ''fail'']
        ((fresh_recorder False)\<lparr>result := [''timems'' \<mapsto> JNumber 3]\<rparr>))
       = PassState_num Pass"
proof -
  let ?p = "[''status'' \<mapsto> JString ''fail'']"
  let ?r = "(fresh_recorder False)\<lparr>result := [''timems'' \<mapsto> JNumber 3]\<rparr>"
  have h1: "?p ''status'' = Some (JString ''fail'')" by simp
  have h2: "?p ''timems'' = None" by simp
  have r: "result ?r ''timems'' = Some (JNumber 3)" "state ?r = PassState_num Pass"
    by (simp_all add: fresh_recorder_def new_TestCaseRecorder_def)
  note T = injectResult_sets_named_fields_only [where p = ?p and r = ?r]
  have a: "result (injectResult ?p ?r) ''status'' = Some (JString ''fail'')"
    using T h1 by blast
  have b: "result (injectResult ?p ?r) ''timems'' = Some (JNumber 3)"
    using T h2 r(1) by metis
  have c: "state (injectResult ?p ?r) = PassState_num Pass"
    using T r(2) by metis
  show ?thesis
    using h1 h2 a b c by blast
qed

section \<open>\<open>setFirstLineOnly\<close> and \<open>toJSON\<close>\<close>

lemma split_str_not_Nil: "split_str sep s \<noteq> []"
  by (induction s) (auto split: list.splits)

lemma split_str_first: "split_str sep s ! 0 = takeWhile (\<lambda>c. c \<noteq> sep) s"
proof (induction s)
  case Nil
  show ?case by simp
next
  case (Cons c s)
  obtain x xs where x: "split_str sep s = x # xs"
    using split_str_not_Nil [of sep s] by (cases "split_str sep s") auto
  with Cons.IH show ?case by simp
qed

lemma setFirstLineOnly_stored:
  "\<exists>f. firstLineOnlyMessage (setFirstLineOnly m l) = Some f"
  by (cases "firstLineOnlyMessage l") (simp_all add: setFirstLineOnly_def)

lemma setFirstLineOnly_twice: "setFirstLineOnly m2 (setFirstLineOnly m1 l) = setFirstLineOnly m1 l"
  using setFirstLineOnly_stored [of m1 l]
  by (auto simp: setFirstLineOnly_def [of m2])

lemma fold_setFirstLineOnly:
  "fold setFirstLineOnly ms (setFirstLineOnly m1 l) = setFirstLineOnly m1 l"
  by (induction ms) (simp_all add: setFirstLineOnly_twice)

lemma setFirstLineOnly_fields:
  "name (setFirstLineOnly m l) = name l"
  "message (setFirstLineOnly m l) = message l"
  "stack (setFirstLineOnly m l) = stack l"
  by (simp_all add: setFirstLineOnly_def split: option.splits)

text \<open>
  C8, as stated, fails when the message given to \<open>setFirstLineOnly\<close> is not empty:
  \<open>toJSON()\<close> then ends with a note of what was elided, after the first line.
\<close>

theorem toJSON_first_line_only_counterexample:
  "message (new_LogMessageWithStack_internal ''FAIL'' (an_error (''a'' @ [CHR 0x0A] @ ''b'')))
     = ''a'' @ [CHR 0x0A] @ ''b''
   \<and> stack (new_LogMessageWithStack_internal ''FAIL'' (an_error (''a'' @ [CHR 0x0A] @ ''b'')))
     \<noteq> None
   \<and> toJSON whole_stack (setFirstLineOnly ''known''
        (new_LogMessageWithStack_internal ''FAIL'' (an_error (''a'' @ [CHR 0x0A] @ ''b''))))
     = ''FAIL: a (elided: known)''
   \<and> toJSON whole_stack (setFirstLineOnly ''known''
        (new_LogMessageWithStack_internal ''FAIL'' (an_error (''a'' @ [CHR 0x0A] @ ''b''))))
     \<noteq> ''FAIL: a''"
  by (simp add: toJSON_def setFirstLineOnly_def new_LogMessageWithStack_internal_def
      an_error_def)

text \<open>
  C8, amended. For a log message with a nonempty message and a nonempty stack: when
  \<open>setFirstLineOnly\<close> has never been called, \<open>toJSON()\<close> is the name, \<open>': '\<close>, the
  whole message, a newline and the extracted stack trace; once it has been called,
  first with the message \<open>f\<close>, \<open>toJSON()\<close> is the name, \<open>': '\<close> and the first line of
  the message, followed by \<open>' (elided: f)'\<close> when \<open>f\<close> is not empty, and no stack
  trace.
\<close>

theorem toJSON_first_line_or_full:
  assumes "firstLineOnlyMessage l = None" and "message l \<noteq> []"
    and "stack l = Some st" and "st \<noteq> []"
  shows "toJSON trace l = name l @ '': '' @ message l @ [CHR 0x0A] @ trace l
       \<and> toJSON trace (fold setFirstLineOnly fs (setFirstLineOnly f l))
           = name l @ '': '' @ takeWhile (\<lambda>c. c \<noteq> CHR 0x0A) (message l)
             @ (if f = [] then [] else '' (elided: '' @ f @ '')'')"
proof -
  have full: "toJSON trace l = name l @ '': '' @ message l @ [CHR 0x0A] @ trace l"
    using assms by (simp add: toJSON_def)
  have set1: "firstLineOnlyMessage (setFirstLineOnly f l) = Some f"
    using assms(1) by (simp add: setFirstLineOnly_def)
  have "toJSON trace (setFirstLineOnly f l)
           = name l @ '': '' @ takeWhile (\<lambda>c. c \<noteq> CHR 0x0A) (message l)
             @ (if f = [] then [] else '' (elided: '' @ f @ '')'')"
    using assms(2)
    by (simp add: toJSON_def set1 setFirstLineOnly_fields split_str_first)
  then show ?thesis
    using full by (simp add: fold_setFirstLineOnly)
qed

theorem toJSON_first_line_or_full_witness:
  "firstLineOnlyMessage
     (new_LogMessageWithStack_internal ''FAIL'' (an_error (''a'' @ [CHR 0x0A] @ ''b''))) = None
   \<and> message (new_LogMessageWithStack_internal ''FAIL'' (an_error (''a'' @ [CHR 0x0A] @ ''b'')))
       \<noteq> []
   \<and> stack (new_LogMessageWithStack_internal ''FAIL'' (an_error (''a'' @ [CHR 0x0A] @ ''b'')))
       = Some (''Error: a'' @ [CHR 0x0A] @ ''b'' @ [CHR 0x0A] @ ''    at f (a.js:1:1)'')
   \<and> toJSON whole_stack
        (new_LogMessageWithStack_internal ''FAIL'' (an_error (''a'' @ [CHR 0x0A] @ ''b'')))
       = ''FAIL: a'' @ [CHR 0x0A] @ ''b'' @ [CHR 0x0A]
         @ ''Error: a'' @ [CHR 0x0A] @ ''b'' @ [CHR 0x0A] @ ''    at f (a.js:1:1)''
   \<and> toJSON whole_stack (fold setFirstLineOnly [''later'']
        (setFirstLineOnly []
          (new_LogMessageWithStack_internal ''FAIL'' (an_error (''a'' @ [CHR 0x0A] @ ''b'')))))
       = ''FAIL: a''"
proof -
  let ?l = "new_LogMessageWithStack_internal ''FAIL'' (an_error (''a'' @ [CHR 0x0A] @ ''b''))"
  let ?st = "''Error: a'' @ [CHR 0x0A] @ ''b'' @ [CHR 0x0A] @ ''    at f (a.js:1:1)''"
  have h1: "firstLineOnlyMessage ?l = None"
    by (simp add: new_LogMessageWithStack_internal_def)
  have h2: "message ?l \<noteq> []"
    by (simp add: new_LogMessageWithStack_internal_def an_error_def)
  have h3: "stack ?l = Some ?st"
    by (simp add: new_LogMessageWithStack_internal_def an_error_def)
  have h4: "?st \<noteq> []"
    by simp
  note T = toJSON_first_line_or_full [OF h1 h2 h3 h4, where trace = whole_stack
        and fs = "[''later'']" and f = "[]"]
  have a: "toJSON whole_stack ?l = ''FAIL: a'' @ [CHR 0x0A] @ ''b'' @ [CHR 0x0A] @ ?st"
    using T by (simp add: new_LogMessageWithStack_internal_def an_error_def whole_stack_def)
  have b: "toJSON whole_stack (fold setFirstLineOnly [''later''] (setFirstLineOnly [] ?l))
      = ''FAIL: a''"
    using T by (simp add: new_LogMessageWithStack_internal_def an_error_def)
  show ?thesis
    using h1 h2 h3 a b by simp
qed

text \<open>
  C10. \<open>setFirstLineOnly\<close> keeps the first message it was given: the first call on a
  new log message stores its argument, and after a call any number of later calls,
  with any messages, leave the object, and so the output of \<open>toJSON()\<close>, as it was.
  Repeating a call changes nothing.
\<close>

theorem setFirstLineOnly_first_write_wins:
  "firstLineOnlyMessage (setFirstLineOnly m1 (new_LogMessageWithStack_internal nm ex)) = Some m1
   \<and> firstLineOnlyMessage (setFirstLineOnly m2 (setFirstLineOnly m1 l))
       = firstLineOnlyMessage (setFirstLineOnly m1 l)
   \<and> fold setFirstLineOnly ms (setFirstLineOnly m1 l) = setFirstLineOnly m1 l
   \<and> toJSON trace (fold setFirstLineOnly ms (setFirstLineOnly m1 l))
       = toJSON trace (setFirstLineOnly m1 l)
   \<and> setFirstLineOnly m1 (setFirstLineOnly m1 l) = setFirstLineOnly m1 l"
proof -
  have new: "firstLineOnlyMessage (setFirstLineOnly m1 (new_LogMessageWithStack_internal nm ex))
      = Some m1"
    by (simp add: setFirstLineOnly_def new_LogMessageWithStack_internal_def)
  show ?thesis
    using new by (simp add: setFirstLineOnly_twice fold_setFirstLineOnly)
qed

theorem setFirstLineOnly_first_write_wins_witness:
  "firstLineOnlyMessage (setFirstLineOnly ''second''
      (setFirstLineOnly ''first'' (new_LogMessageWithStack_internal ''FAIL'' (an_error ''m''))))
     = Some ''first''
   \<and> toJSON whole_stack (fold setFirstLineOnly [''second'', ''third'']
        (setFirstLineOnly ''first'' (new_LogMessageWithStack_internal ''FAIL'' (an_error ''m''))))
     = ''FAIL: m (elided: first)''"
proof -
  let ?l = "new_LogMessageWithStack_internal ''FAIL'' (an_error ''m'')"
  note T = setFirstLineOnly_first_write_wins [where ?m1.0 = "''first''" and ?m2.0 = "''second''"
      and ms = "[''second'', ''third'']" and l = ?l and nm = "''FAIL''" and ex = "an_error ''m''"
      and trace = whole_stack]
  have a: "firstLineOnlyMessage (setFirstLineOnly ''second'' (setFirstLineOnly ''first'' ?l))
      = Some ''first''"
    using T by metis
  have "toJSON whole_stack (setFirstLineOnly ''first'' ?l) = ''FAIL: m (elided: first)''"
    by (simp add: toJSON_def setFirstLineOnly_def new_LogMessageWithStack_internal_def
        an_error_def)
  then have b: "toJSON whole_stack (fold setFirstLineOnly [''second'', ''third'']
        (setFirstLineOnly ''first'' ?l)) = ''FAIL: m (elided: first)''"
    using T by metis
  show ?thesis
    using a b by blast
qed

section \<open>Expansion of a chain of \<open>combine\<close> axes\<close>

lemma merge_each_fresh:
  "\<forall>b \<in> set bs. fst ` set b \<inter> fst ` set a = {} \<Longrightarrow>
   merge_each a bs = Inr (map (\<lambda>b. a @ b) bs)"
proof (induction bs)
  case Nil
  show ?case by simp
next
  case (Cons b bs)
  then have "mergeParams a b = Inr (a @ b)"
    by (auto simp: mergeParams_def list_ex_iff)
  with Cons show ?case by simp
qed

lemma multiply_fresh:
  "\<forall>c \<in> set cs. \<forall>b \<in> set (gen c). fst ` set b \<inter> fst ` set c = {} \<Longrightarrow>
   multiply gen cs = Inr (concat (map (\<lambda>c. map (\<lambda>b. c @ b) (gen c)) cs))"
proof (induction cs)
  case Nil
  show ?case by simp
next
  case (Cons c cs)
  then have "merge_each c (gen c) = Inr (map (\<lambda>b. c @ b) (gen c))"
    by (intro merge_each_fresh) simp
  with Cons show ?case by simp
qed

lemma apply_Combine:
  assumes "\<forall>c \<in> set cs. k \<notin> fst ` set c"
  shows "apply_op (Combine k vs) cs = Inr (concat (map (\<lambda>c. map (\<lambda>v. c @ [(k, v)]) vs) cs))"
proof -
  have "multiply (\<lambda>_. map (\<lambda>v. [(k, v)]) vs) cs
      = Inr (concat (map (\<lambda>c. map (\<lambda>b. c @ b) (map (\<lambda>v. [(k, v)]) vs)) cs))"
    using assms by (intro multiply_fresh) auto
  moreover have "\<not> key_in_cases k cs"
    using assms by (auto simp: key_in_cases_def list_ex_iff)
  ultimately show ?thesis by (simp add: comp_def)
qed

lemma all_combinations_Nil: "all_combinations [] = [[]]"
  by (simp add: all_combinations_def)

lemma all_combinations_Cons:
  "all_combinations ((k, vs) # axes)
     = concat (map (\<lambda>v. map (Cons (k, v)) (all_combinations axes)) vs)"
  by (simp add: all_combinations_def map_concat comp_def)

lemma map_append_Nil: "map ((@) []) xs = xs"
  by (induction xs) simp_all

lemma cross_step:
  "concat (map (\<lambda>v. map ((@) (c @ [(k, v)])) A) vs)
     = map ((@) c) (concat (map (\<lambda>v. map (Cons (k, v)) A) vs))"
  by (induction vs) simp_all

lemma cross_steps:
  "concat (map (\<lambda>c'. map ((@) c') A) (concat (map (\<lambda>c. map (\<lambda>v. c @ [(k, v)]) vs) cs)))
     = concat (map (\<lambda>c. map ((@) c) (concat (map (\<lambda>v. map (Cons (k, v)) A) vs))) cs)"
  by (induction cs) (simp_all add: comp_def cross_step)

lemma expand_combines:
  assumes "distinct (map fst axes)"
    and "\<forall>c \<in> set cs. fst ` set c \<inter> fst ` set axes = {}"
  shows "expand_ops (map (\<lambda>(k, vs). Combine k vs) axes) cs
       = Inr (concat (map (\<lambda>c. map ((@) c) (all_combinations axes)) cs))"
  using assms
proof (induction axes arbitrary: cs)
  case Nil
  show ?case by (simp add: all_combinations_Nil)
next
  case (Cons ax axes)
  obtain k vs where ax: "ax = (k, vs)" by (cases ax)
  let ?cs' = "concat (map (\<lambda>c. map (\<lambda>v. c @ [(k, v)]) vs) cs)"
  have fresh: "\<forall>c \<in> set cs. k \<notin> fst ` set c"
    using Cons.prems(2) ax by auto
  have step: "apply_op (Combine k vs) cs = Inr ?cs'"
    using fresh by (rule apply_Combine)
  have d: "distinct (map fst axes)" and k: "k \<notin> fst ` set axes"
    using Cons.prems(1) ax by auto
  have keys: "\<forall>c \<in> set ?cs'. fst ` set c \<inter> fst ` set axes = {}"
    using Cons.prems(2) k ax by auto
  have "expand_ops (map (\<lambda>(k, vs). Combine k vs) axes) ?cs'
       = Inr (concat (map (\<lambda>c. map ((@) c) (all_combinations axes)) ?cs'))"
    using d keys by (rule Cons.IH)
  then show ?case
    by (simp add: ax step all_combinations_Cons cross_steps del: apply_op.simps)
qed

lemma run_subcases_each:
  "\<forall>c \<in> set tops. expand_ops sub [c] = Inr (f c) \<Longrightarrow>
   run_subcases sub tops = Inr (concat (map f tops))"
  by (induction tops) simp_all

lemma cons_cross:
  "concat (map (\<lambda>c. map ((@) (x # c)) B) A)
     = map (Cons x) (concat (map (\<lambda>c. map ((@) c) B) A))"
  by (induction A) simp_all

lemma cons_crosses:
  "concat (map (\<lambda>c. map ((@) c) B) (concat (map (\<lambda>v. map (Cons (k, v)) A) vs)))
     = concat (map (\<lambda>v. map (Cons (k, v)) (concat (map (\<lambda>c. map ((@) c) B) A))) vs)"
  by (induction vs) (simp_all add: comp_def cons_cross)

lemma all_combinations_append:
  "all_combinations (xs @ ys)
     = concat (map (\<lambda>c. map ((@) c) (all_combinations ys)) (all_combinations xs))"
proof (induction xs)
  case Nil
  show ?case by (simp add: all_combinations_Nil map_append_Nil)
next
  case (Cons ax xs)
  obtain k vs where ax: "ax = (k, vs)" by (cases ax)
  show ?case
    unfolding ax append_Cons all_combinations_Cons Cons.IH
    by (simp add: cons_crosses)
qed

lemma keys_all_combinations:
  "c \<in> set (all_combinations axes) \<Longrightarrow> map fst c = map fst axes"
  by (auto simp: all_combinations_def dest: in_set_product_lists_length)

lemma top_ops_chain: "top_ops (combine_chain t s) = map (\<lambda>(k, vs). Combine k vs) t"
  unfolding top_ops_def combine_chain_def
  by (induction t) (auto)

lemma sub_ops_chain: "sub_ops (combine_chain t s) = map (\<lambda>(k, vs). Combine k vs) s"
  unfolding sub_ops_def combine_chain_def
  by (induction t) (auto)

lemma no_marker: "\<not> list_ex is_BeginSubcases (map (\<lambda>(k, vs). Combine k vs) s)"
  by (induction s) auto

lemma declared_keys_combines:
  "concat (map (declared_keys \<circ> (\<lambda>(k, vs). Combine k vs)) axes) = map fst axes"
  by (induction axes) auto

lemma declared_keys_chain:
  "concat (map declared_keys (combine_chain t s)) = map fst (t @ s)"
  by (simp add: combine_chain_def declared_keys_combines)

lemma executed_combine_chain:
  assumes "distinct (map fst (t @ s))"
  shows "executed_cases (combine_chain t s) = Inr (all_combinations (t @ s))"
proof -
  have dt: "distinct (map fst t)" and ds: "distinct (map fst s)"
    and disj: "fst ` set t \<inter> fst ` set s = {}"
    using assms by auto
  have tops: "expand_ops (map (\<lambda>(k, vs). Combine k vs) t) [[]] = Inr (all_combinations t)"
    using expand_combines [OF dt, of "[[]]"] by (simp add: map_append_Nil)
  have each: "\<forall>c \<in> set (all_combinations t).
      expand_ops (map (\<lambda>(k, vs). Combine k vs) s) [c] = Inr (map ((@) c) (all_combinations s))"
  proof
    fix c assume "c \<in> set (all_combinations t)"
    then have "map fst c = map fst t" by (rule keys_all_combinations)
    then have "fst ` set c = fst ` set t" by (metis set_map)
    then have "\<forall>c' \<in> set [c]. fst ` set c' \<inter> fst ` set s = {}"
      using disj by simp
    from expand_combines [OF ds this]
    show "expand_ops (map (\<lambda>(k, vs). Combine k vs) s) [c] = Inr (map ((@) c) (all_combinations s))"
      by simp
  qed
  show ?thesis
    unfolding executed_cases_def top_ops_chain sub_ops_chain declared_keys_chain
    using assms
    by (simp add: no_marker tops run_subcases_each [OF each] all_combinations_append)
qed

lemma length_all_combinations:
  "length (all_combinations axes) = prod_list (map (length \<circ> snd) axes)"
  by (induction axes) (simp_all add: all_combinations_def length_concat comp_def sum_list_triv)

lemma distinct_all_combinations:
  assumes "\<forall>vs \<in> set (map snd axes). distinct vs"
  shows "distinct (all_combinations axes)"
proof -
  have "distinct (product_lists (map snd axes))"
    using assms by (intro distinct_product_lists) simp
  moreover have "inj_on (zip (map fst axes)) (set (product_lists (map snd axes)))"
  proof (rule inj_onI)
    fix xs ys
    assume x: "xs \<in> set (product_lists (map snd axes))"
      and y: "ys \<in> set (product_lists (map snd axes))"
      and e: "zip (map fst axes) xs = zip (map fst axes) ys"
    have "length xs = length (map fst axes)" "length ys = length (map fst axes)"
      using x y by (auto dest: in_set_product_lists_length)
    then have "map snd (zip (map fst axes) xs) = xs" "map snd (zip (map fst axes) ys) = ys"
      by simp_all
    with e show "xs = ys" by metis
  qed
  ultimately show ?thesis
    by (simp add: all_combinations_def distinct_map)
qed

lemma all_combinations_iff:
  "c \<in> set (all_combinations axes)
     \<longleftrightarrow> map fst c = map fst axes \<and> list_all2 (\<lambda>v vs. v \<in> set vs) (map snd c) (map snd axes)"
proof
  assume "c \<in> set (all_combinations axes)"
  then obtain xs where xs: "xs \<in> set (product_lists (map snd axes))" "c = zip (map fst axes) xs"
    by (auto simp: all_combinations_def)
  have l: "length xs = length (map fst axes)"
    using xs(1) by (auto dest: in_set_product_lists_length)
  have "list_all2 (\<lambda>v vs. v \<in> set vs) xs (map snd axes)"
    using xs(1) by (simp add: product_lists_set)
  then show "map fst c = map fst axes \<and> list_all2 (\<lambda>v vs. v \<in> set vs) (map snd c) (map snd axes)"
    using l by (simp add: xs(2))
next
  assume a: "map fst c = map fst axes \<and> list_all2 (\<lambda>v vs. v \<in> set vs) (map snd c) (map snd axes)"
  then have "map snd c \<in> set (product_lists (map snd axes))"
    by (simp add: product_lists_set)
  moreover have "c = zip (map fst axes) (map snd c)"
    using a by (metis zip_map_fst_snd)
  ultimately show "c \<in> set (all_combinations axes)"
    by (auto simp: all_combinations_def)
qed

text \<open>
  C7, as stated, fails for an axis that lists a value twice: the chain
  \<open>combine('x', [1, 1]).beginSubcases()\<close> has one axis of size two and executes two
  cases, but they are the same combination. And a subcase axis named as a top-level
  axis gives a configuration error instead of cases.
\<close>

theorem repeated_value_counterexample:
  "executed_cases (combine_chain [(''x'', [PNum 1, PNum 1])] [])
     = Inr [[(''x'', PNum 1)], [(''x'', PNum 1)]]
   \<and> \<not> distinct [[(''x'', PNum 1)], [(''x'', PNum 1)]]
   \<and> executed_cases (combine_chain [(''x'', [PNum 1, PNum 2])] [(''x'', [PNum 3])])
     = Inl ConfigurationError"
  by (simp add: executed_cases_def combine_chain_def top_ops_def sub_ops_def mergeParams_def
      key_in_cases_def)

text \<open>
  C7, amended. For top-level axes and subcase axes, all declared by \<open>combine\<close>, whose
  names are pairwise distinct, the chain executes the combinations of the values of all
  axes in the order of declaration (the last axis varying fastest): their number is the
  product of the sizes of the top-level axes times the product of the sizes of the
  subcase axes, and a case record is executed exactly when it gives every axis, in
  order, one of its values. When no axis lists a value twice, no case occurs twice.
\<close>

theorem combine_chain_executes_every_combination_once:
  assumes "distinct (map fst (top_axes @ sub_axes))"
  shows "executed_cases (combine_chain top_axes sub_axes)
           = Inr (all_combinations (top_axes @ sub_axes))
       \<and> length (all_combinations (top_axes @ sub_axes))
           = prod_list (map (length \<circ> snd) top_axes) * prod_list (map (length \<circ> snd) sub_axes)
       \<and> (\<forall>c. c \<in> set (all_combinations (top_axes @ sub_axes))
              \<longleftrightarrow> map fst c = map fst (top_axes @ sub_axes)
                \<and> list_all2 (\<lambda>v vs. v \<in> set vs) (map snd c) (map snd (top_axes @ sub_axes)))
       \<and> ((\<forall>vs \<in> set (map snd (top_axes @ sub_axes)). distinct vs) \<longrightarrow>
            distinct (all_combinations (top_axes @ sub_axes)))"
proof -
  have run: "executed_cases (combine_chain top_axes sub_axes)
           = Inr (all_combinations (top_axes @ sub_axes))"
    using assms by (rule executed_combine_chain)
  have len: "length (all_combinations (top_axes @ sub_axes))
           = prod_list (map (length \<circ> snd) top_axes) * prod_list (map (length \<circ> snd) sub_axes)"
    by (simp add: length_all_combinations)
  have once: "distinct (all_combinations (top_axes @ sub_axes))"
    if "\<forall>vs \<in> set (map snd (top_axes @ sub_axes)). distinct vs"
    using that by (rule distinct_all_combinations)
  show ?thesis
    using run len once all_combinations_iff [of _ "top_axes @ sub_axes"] by blast
qed

theorem combine_chain_executes_every_combination_once_witness:
  "distinct (map fst ([(''x'', [PNum 1, PNum 2])] @ [(''y'', [PStr ''a'', PStr ''b''])]))
   \<and> distinct [PNum 1, PNum 2] \<and> distinct [PStr ''a'', PStr ''b'']
   \<and> executed_cases (combine_chain [(''x'', [PNum 1, PNum 2])] [(''y'', [PStr ''a'', PStr ''b''])])
       = Inr [[(''x'', PNum 1), (''y'', PStr ''a'')],
              [(''x'', PNum 1), (''y'', PStr ''b'')],
              [(''x'', PNum 2), (''y'', PStr ''a'')],
              [(''x'', PNum 2), (''y'', PStr ''b'')]]
   \<and> distinct [[(''x'', PNum 1), (''y'', PStr ''a'')],
               [(''x'', PNum 1), (''y'', PStr ''b'')],
               [(''x'', PNum 2), (''y'', PStr ''a'')],
               [(''x'', PNum 2), (''y'', PStr ''b'')]]
   \<and> executed_cases (combine_chain [(''x'', [PNum 1, PNum 1])] [(''y'', [PStr ''a''])])
       = Inr [[(''x'', PNum 1), (''y'', PStr ''a'')], [(''x'', PNum 1), (''y'', PStr ''a'')]]
   \<and> length [[(''x'', PNum 1), (''y'', PStr ''a'')], [(''x'', PNum 1), (''y'', PStr ''a'')]]
       = prod_list (map (length \<circ> snd) [(''x'', [PNum 1, PNum 1])])
         * prod_list (map (length \<circ> snd) [(''y'', [PStr ''a''])])"
proof -
  let ?t = "[(''x'', [PNum 1, PNum 2])]"
  let ?s = "[(''y'', [PStr ''a'', PStr ''b''])]"
  let ?t' = "[(''x'', [PNum 1, PNum 1])]"
  let ?s' = "[(''y'', [PStr ''a''])]"
  have h1: "distinct (map fst (?t @ ?s))"
    by simp
  have h1': "distinct (map fst (?t' @ ?s'))"
    by simp
  have h2: "\<forall>vs \<in> set (map snd (?t @ ?s)). distinct vs"
    by simp
  have v: "all_combinations (?t @ ?s)
      = [[(''x'', PNum 1), (''y'', PStr ''a'')],
         [(''x'', PNum 1), (''y'', PStr ''b'')],
         [(''x'', PNum 2), (''y'', PStr ''a'')],
         [(''x'', PNum 2), (''y'', PStr ''b'')]]"
    by (simp add: all_combinations_def)
  have v': "all_combinations (?t' @ ?s')
      = [[(''x'', PNum 1), (''y'', PStr ''a'')], [(''x'', PNum 1), (''y'', PStr ''a'')]]"
    by (simp add: all_combinations_def)
  note T = combine_chain_executes_every_combination_once [OF h1]
  note T' = combine_chain_executes_every_combination_once [OF h1']
  have a: "executed_cases (combine_chain ?t ?s) = Inr (all_combinations (?t @ ?s))"
    using T by blast
  have b: "distinct (all_combinations (?t @ ?s))"
    using T h2 by blast
  have c: "executed_cases (combine_chain ?t' ?s') = Inr (all_combinations (?t' @ ?s'))"
    using T' by blast
  have d: "length (all_combinations (?t' @ ?s'))
      = prod_list (map (length \<circ> snd) ?t') * prod_list (map (length \<circ> snd) ?s')"
    using T' by blast
  show ?thesis
    using h1 a b c d unfolding v v' by simp
qed

end
